theory Spec2Isabelle
  imports Complex_Main
begin

section \<open>Tensor shapes and the torch layers the network is built from\<close>

text \<open>
  The weights of the network are not part of the repository, so the convolutional part
  (\<open>YNetEncoder\<close>, \<open>YNetDecoder\<close>, \<open>YNetTorch.__init__\<close>) is modelled on the shapes of
  the tensors: a 4D tensor is its size \<open>N x C x H x W\<close>, and a layer is the function it
  computes on sizes together with the size checks torch performs (each failed check is
  a \<open>RuntimeError\<close> in torch, an \<open>Inl\<close> here).
\<close>

datatype tshape = Shape (batch: nat) (chans: nat) (height: nat) (width: nat)

datatype error =
    IndexError                \<comment> \<open>Python: index into an empty list\<close>
  | ChannelMismatch           \<comment> \<open>conv: input has another channel count than the weight\<close>
  | KernelTooLarge            \<comment> \<open>conv: kernel larger than the padded input\<close>
  | PoolOutputTooSmall        \<comment> \<open>max-pool: the computed output size is 0\<close>
  | InterpolateEmpty          \<comment> \<open>interpolate: empty input\<close>
  | EmptyTensor               \<comment> \<open>conv or max-pool: a channel count or spatial size of 0\<close>
  | ViewAmbiguous             \<comment> \<open>view with -1 on a tensor whose other sizes multiply to 0\<close>
  | CatSizeMismatch nat       \<comment> \<open>cat: sizes differ outside dim 1; carries the loop index\<close>
  | LoadError                 \<comment> \<open>torch.load could not read the file\<close>
  | BroadcastError            \<comment> \<open>elementwise op: sizes cannot be broadcast\<close>
  | CatLastMismatch           \<comment> \<open>cat along the last dim: the other sizes differ\<close>
  | DimensionError            \<comment> \<open>a tensor of another rank than the operation needs\<close>

datatype layer =
    Conv2d nat nat nat nat    \<comment> \<open>in_channels, out_channels, kernel_size, padding; stride 1\<close>
  | ReLU
  | MaxPool2d nat nat         \<comment> \<open>kernel_size, stride; padding 0, dilation 1, no ceil_mode\<close>

text \<open>
  The checks, as torch states them. \<open>Conv2d\<close>: the input must have \<open>in_channels\<close>
  channels, and the kernel must not be larger than the padded input; the output size
  along an axis is \<open>n + 2 * padding - kernel_size + 1\<close>. \<open>MaxPool2d\<close>: the output size
  along an axis is \<open>(n - kernel_size) div stride + 1\<close>, and an output size of 0 is refused
  ("Output size is too small"). \<open>pool_out\<close> is that size, 0 when the window does not fit.
  Neither layer computes on zero channels: a convolution raises when its weight has no
  output channel or its input has no channel, a max-pool when its input has a size of 0
  outside the batch dimension. Constructing such a layer does not raise; only its
  forward pass does.
\<close>

definition pool_out :: "nat \<Rightarrow> nat \<Rightarrow> nat \<Rightarrow> nat" where
  "pool_out n k s = (if n < k then 0 else (n - k) div s + 1)"

fun apply_layer :: "layer \<Rightarrow> tshape \<Rightarrow> error + tshape" where
  "apply_layer (Conv2d cin cout k p) x =
     (if cout = 0 then Inl EmptyTensor
      else if chans x \<noteq> cin then Inl ChannelMismatch
      else if chans x = 0 then Inl EmptyTensor
      else if height x + 2 * p < k \<or> width x + 2 * p < k then Inl KernelTooLarge
      else Inr (Shape (batch x) cout (height x + 2 * p - k + 1) (width x + 2 * p - k + 1)))"
| "apply_layer ReLU x = Inr x"
| "apply_layer (MaxPool2d k s) x =
     (if chans x = 0 \<or> height x = 0 \<or> width x = 0 then Inl EmptyTensor
      else if pool_out (height x) k s = 0 \<or> pool_out (width x) k s = 0 then Inl PoolOutputTooSmall
      else Inr (Shape (batch x) (chans x) (pool_out (height x) k s) (pool_out (width x) k s)))"

text \<open>\<open>nn.Sequential\<close>: the layers in order, stopping at the first error.\<close>

fun sequential :: "layer list \<Rightarrow> tshape \<Rightarrow> error + tshape" where
  "sequential [] x = Inr x"
| "sequential (l # ls) x =
     (case apply_layer l x of Inl e \<Rightarrow> Inl e | Inr x' \<Rightarrow> sequential ls x')"

text \<open>
  \<open>F.interpolate(x, scale_factor=s, mode="bilinear", align_corners=False)\<close>: each
  spatial size is multiplied by the scale factor; an empty input is refused.
\<close>

definition interpolate :: "tshape \<Rightarrow> nat \<Rightarrow> error + tshape" where
  "interpolate x s =
     (if chans x = 0 \<or> height x = 0 \<or> width x = 0 \<or> height x * s = 0 \<or> width x * s = 0
      then Inl InterpolateEmpty
      else Inr (Shape (batch x) (chans x) (height x * s) (width x * s)))"

text \<open>
  \<open>torch.cat([x, feature], dim=1)\<close>: the sizes must agree outside dimension 1, the
  channels add up. The index \<open>i\<close> is the loop index of the caller, kept in the error.
\<close>

definition cat_dim1 :: "nat \<Rightarrow> tshape \<Rightarrow> tshape \<Rightarrow> error + tshape" where
  "cat_dim1 i x feature =
     (if batch x = batch feature \<and> height x = height feature \<and> width x = width feature
      then Inr (Shape (batch x) (chans x + chans feature) (height x) (width x))
      else Inl (CatSizeMismatch i))"

section \<open>YNetEncoder\<close>

record ynet_encoder =
  stages :: "layer list list"

text \<open>
  \<open>YNetEncoder.__init__\<close>: the first block, one block per \<open>i\<close> in
  \<open>range(len(channels) - 1)\<close>, and the last max-pool. \<open>channels[0]\<close> raises on an
  empty list.
\<close>

definition encoder_block :: "nat list \<Rightarrow> nat \<Rightarrow> layer list" where
  "encoder_block channels i =
     [MaxPool2d 2 2,
      Conv2d (channels ! i) (channels ! (i + 1)) 3 1, ReLU,
      Conv2d (channels ! (i + 1)) (channels ! (i + 1)) 3 1, ReLU]"

definition YNetEncoder_init :: "nat \<Rightarrow> nat list \<Rightarrow> error + ynet_encoder" where
  "YNetEncoder_init in_channels channels =
     (case channels of
        [] \<Rightarrow> Inl IndexError
      | c0 # _ \<Rightarrow>
          Inr \<lparr>stages =
                 [[Conv2d in_channels c0 3 1, ReLU]]
                 @ map (encoder_block channels) [0..<length channels - 1]
                 @ [[MaxPool2d 2 2]]\<rparr>)"

text \<open>\<open>YNetEncoder.forward\<close>: every stage's output is appended to \<open>features\<close>.\<close>

fun encoder_loop :: "layer list list \<Rightarrow> tshape \<Rightarrow> tshape list \<Rightarrow> error + tshape list" where
  "encoder_loop [] x features = Inr features"
| "encoder_loop (stage # rest) x features =
     (case sequential stage x of
        Inl e \<Rightarrow> Inl e
      | Inr x' \<Rightarrow> encoder_loop rest x' (features @ [x']))"

definition YNetEncoder_forward :: "ynet_encoder \<Rightarrow> tshape \<Rightarrow> error + tshape list" where
  "YNetEncoder_forward e x = encoder_loop (stages e) x []"

section \<open>YNetDecoder\<close>

record ynet_decoder =
  center :: "layer list"
  upsample_conv :: "layer list"
  decoder :: "layer list list"
  predictor :: layer

text \<open>
  \<open>YNetDecoder.__init__\<close>. The parameter \<open>traj\<close> is \<open>False\<close> or an int in the source
  and is only tested for truth, so it is a natural number here, 0 standing for
  \<open>False\<close>. \<open>encoder_channels[0]\<close> and \<open>decoder_channels[-1]\<close> raise on an empty list;
  every \<open>zip\<close> stops at the shorter list.
\<close>

definition decoder_block :: "nat \<times> nat \<Rightarrow> layer list" where
  "decoder_block io =
     (case io of (in_channels, out_channels) \<Rightarrow>
        [Conv2d in_channels out_channels 3 1, ReLU,
         Conv2d out_channels out_channels 3 1, ReLU])"

definition YNetDecoder_init ::
  "nat list \<Rightarrow> nat list \<Rightarrow> nat \<Rightarrow> nat \<Rightarrow> error + ynet_decoder" where
  "YNetDecoder_init encoder_channels decoder_channels output_len traj =
     (let encoder_channels1 =
            (if traj \<noteq> 0 then map (\<lambda>channel. channel + traj) encoder_channels
             else encoder_channels);
          encoder_channels2 = rev encoder_channels1
      in case encoder_channels2 of
           [] \<Rightarrow> Inl IndexError
         | center_channels # _ \<Rightarrow>
             (let upsample_channels_in = [center_channels * 2] @ butlast decoder_channels;
                  upsample_channels_out = map (\<lambda>num_channel. num_channel div 2) upsample_channels_in;
                  in_channels = map (\<lambda>(enc, dec). enc + dec) (zip encoder_channels2 upsample_channels_out);
                  out_channels = decoder_channels
              in if decoder_channels = [] then Inl IndexError
                 else Inr \<lparr>center =
                             [Conv2d center_channels (center_channels * 2) 3 1, ReLU,
                              Conv2d (center_channels * 2) (center_channels * 2) 3 1, ReLU],
                           upsample_conv =
                             map (\<lambda>(i, out). Conv2d i out 3 1)
                               (zip upsample_channels_in upsample_channels_out),
                           decoder = map decoder_block (zip in_channels out_channels),
                           predictor = Conv2d (last decoder_channels) output_len 1 0\<rparr>))"

text \<open>
  \<open>YNetDecoder.forward\<close>. The loop runs over
  \<open>zip(features[1:], self.decoder, self.upsample_conv)\<close>; the model also returns the
  list of the features the loop has concatenated, in the order it read them.
\<close>

fun decoder_loop ::
  "nat \<Rightarrow> tshape \<Rightarrow> tshape list \<Rightarrow> (tshape \<times> layer list \<times> layer) list
    \<Rightarrow> error + (tshape \<times> tshape list)" where
  "decoder_loop i x used [] = Inr (x, used)"
| "decoder_loop i x used ((feature, block, up_conv) # rest) =
     (case interpolate x 2 of
        Inl e \<Rightarrow> Inl e
      | Inr x1 \<Rightarrow>
     (case apply_layer up_conv x1 of
        Inl e \<Rightarrow> Inl e
      | Inr x2 \<Rightarrow>
     (case cat_dim1 i x2 feature of
        Inl e \<Rightarrow> Inl e
      | Inr x3 \<Rightarrow>
     (case sequential block x3 of
        Inl e \<Rightarrow> Inl e
      | Inr x4 \<Rightarrow> decoder_loop (Suc i) x4 (used @ [feature]) rest))))"

definition YNetDecoder_forward_trace ::
  "ynet_decoder \<Rightarrow> tshape list \<Rightarrow> error + (tshape \<times> tshape list)" where
  "YNetDecoder_forward_trace d features =
     (case rev features of
        [] \<Rightarrow> Inl IndexError
      | center_feature # skips \<Rightarrow>
          (case sequential (center d) center_feature of
             Inl e \<Rightarrow> Inl e
           | Inr x \<Rightarrow>
          (case decoder_loop 0 x [] (zip skips (zip (decoder d) (upsample_conv d))) of
             Inl e \<Rightarrow> Inl e
           | Inr (x', used) \<Rightarrow>
          (case apply_layer (predictor d) x' of
             Inl e \<Rightarrow> Inl e
           | Inr y \<Rightarrow> Inr (y, used)))))"

definition YNetDecoder_forward :: "ynet_decoder \<Rightarrow> tshape list \<Rightarrow> error + tshape" where
  "YNetDecoder_forward d features = map_sum id fst (YNetDecoder_forward_trace d features)"


section \<open>YNetTorch\<close>

text \<open>
  \<open>self.semantic_segmentation\<close> is \<open>nn.Identity()\<close> or the object \<open>torch.load\<close>
  returns; the loaded object is named by its file, with a flag saying whether its
  \<open>segmentation_head\<close> has been replaced by \<open>nn.Identity()\<close>.
\<close>

datatype segmentation = Identity | Loaded string bool

record ynet_torch =
  semantic_segmentation :: segmentation
  encoder :: ynet_encoder
  goal_decoder :: ynet_decoder
  traj_decoder :: ynet_decoder
  softargmax_normalized_coordinates :: bool

text \<open>
  \<open>YNetTorch.__init__\<close>. Reading the file is outside the program: \<open>loadable\<close> says for
  which paths \<open>torch.load\<close> returns. The goal decoder is built with the default
  \<open>traj=False\<close>, the trajectory decoder with \<open>traj=waypoints\<close>.
\<close>

definition YNetTorch_init ::
  "(string \<Rightarrow> bool) \<Rightarrow> nat \<Rightarrow> nat \<Rightarrow> string option \<Rightarrow> bool \<Rightarrow> nat \<Rightarrow> nat list \<Rightarrow> nat list \<Rightarrow> nat
    \<Rightarrow> error + ynet_torch" where
  "YNetTorch_init loadable obs_len pred_len segmentation_model_fp use_features_only
      semantic_classes encoder_channels decoder_channels waypoints =
     (case (case segmentation_model_fp of
              Some fp \<Rightarrow>
                if loadable fp
                then (if use_features_only then Inr (Loaded fp True, 16)
                      else Inr (Loaded fp False, semantic_classes))
                else Inl LoadError
            | None \<Rightarrow> Inr (Identity, semantic_classes)) of
        Inl e \<Rightarrow> Inl e
      | Inr (seg, semantic_classes1) \<Rightarrow>
     (case YNetEncoder_init (semantic_classes1 + obs_len) encoder_channels of
        Inl e \<Rightarrow> Inl e
      | Inr enc \<Rightarrow>
     (case YNetDecoder_init encoder_channels decoder_channels pred_len 0 of
        Inl e \<Rightarrow> Inl e
      | Inr goal \<Rightarrow>
     (case YNetDecoder_init encoder_channels decoder_channels pred_len waypoints of
        Inl e \<Rightarrow> Inl e
      | Inr traj \<Rightarrow>
          Inr \<lparr>semantic_segmentation = seg, encoder = enc, goal_decoder = goal,
               traj_decoder = traj, softargmax_normalized_coordinates = False\<rparr>))))"

definition pred_goal :: "ynet_torch \<Rightarrow> tshape list \<Rightarrow> error + tshape" where
  "pred_goal m features = YNetDecoder_forward (goal_decoder m) features"

definition pred_traj :: "ynet_torch \<Rightarrow> tshape list \<Rightarrow> error + tshape" where
  "pred_traj m features = YNetDecoder_forward (traj_decoder m) features"

definition pred_features :: "ynet_torch \<Rightarrow> tshape \<Rightarrow> error + tshape list" where
  "pred_features m x = YNetEncoder_forward (encoder m) x"

text \<open>\<open>get_ynet\<close>: the repository's own configuration.\<close>

definition get_ynet :: "(string \<Rightarrow> bool) \<Rightarrow> nat \<Rightarrow> nat \<Rightarrow> error + ynet_torch" where
  "get_ynet loadable obs_len pred_len =
     YNetTorch_init loadable obs_len pred_len None False 0
       [32, 32, 64, 64, 64] [64, 64, 64, 32, 32] (length [11::nat])"

text \<open>Building an encoder and running it; an encoder and a decoder run one after the other.\<close>

definition run_encoder :: "nat \<Rightarrow> nat list \<Rightarrow> tshape \<Rightarrow> error + tshape list" where
  "run_encoder in_channels channels x =
     (case YNetEncoder_init in_channels channels of
        Inl e \<Rightarrow> Inl e
      | Inr e \<Rightarrow> YNetEncoder_forward e x)"

definition encode_decode :: "ynet_encoder \<Rightarrow> ynet_decoder \<Rightarrow> tshape \<Rightarrow> error + tshape" where
  "encode_decode e d x =
     (case YNetEncoder_forward e x of
        Inl err \<Rightarrow> Inl err
      | Inr features \<Rightarrow> YNetDecoder_forward d features)"

section \<open>Tensors with values and the soft-argmax on a normalized map\<close>

text \<open>
  For \<open>softargmax_on_softmax_map\<close> the values matter. A tensor is its size and its
  element at each index; arithmetic is exact (real numbers stand for the floats).
\<close>

record tensor =
  dims :: "nat list"
  elem :: "nat list \<Rightarrow> real"

text \<open>Row-major index of a flat position: the inverse of flattening.\<close>

fun unravel :: "nat list \<Rightarrow> nat \<Rightarrow> nat list" where
  "unravel [] k = []"
| "unravel (d # ds) k = (k div prod_list ds) # unravel ds (k mod prod_list ds)"

text \<open>
  Modelled from the spec: \<open>create_meshgrid\<close> of \<open>lib/models/softargmax.py\<close>, which is
  not among the sources. The spec: a coordinate grid of shape \<open>H x W\<close> where each cell
  holds its own (x, y) index, in raw pixel indices; the input is a
  \<open>batch x channel x H x W\<close> tensor. The source unpacks the result as
  \<open>pos_y, pos_x\<close>: the grid of row indices first, the grid of column indices second.
\<close>

definition create_meshgrid :: "tensor \<Rightarrow> error + (tensor \<times> tensor)" where
  "create_meshgrid x =
     (case dims x of
        [n, c, h, w] \<Rightarrow>
          Inr (\<lparr>dims = [h, w], elem = (\<lambda>idx. real (idx ! 0))\<rparr>,
               \<lparr>dims = [h, w], elem = (\<lambda>idx. real (idx ! 1))\<rparr>)
      | _ \<Rightarrow> Inl DimensionError)"

text \<open>\<open>t.reshape(-1)\<close>: one dimension holding every element in row-major order.\<close>

definition reshape_flat :: "tensor \<Rightarrow> tensor" where
  "reshape_flat t =
     \<lparr>dims = [prod_list (dims t)], elem = (\<lambda>idx. elem t (unravel (dims t) (idx ! 0)))\<rparr>"

text \<open>\<open>x.flatten(2)\<close>: the dimensions from the third on become one.\<close>

definition flatten2 :: "tensor \<Rightarrow> error + tensor" where
  "flatten2 x =
     (if length (dims x) < 3 then Inl DimensionError
      else Inr \<lparr>dims = take 2 (dims x) @ [prod_list (drop 2 (dims x))],
                elem = (\<lambda>idx. elem x (take 2 idx @ unravel (drop 2 (dims x)) (idx ! 2)))\<rparr>)"

text \<open>
  \<open>pos * x\<close> for a one-dimensional \<open>pos\<close>: broadcasting aligns \<open>pos\<close> with the last
  dimension of \<open>x\<close>; the two sizes must be equal or one of them 1.
\<close>

definition mul_last :: "tensor \<Rightarrow> tensor \<Rightarrow> error + tensor" where
  "mul_last pos x =
     (if length (dims pos) \<noteq> 1 \<or> dims x = [] then Inl DimensionError
      else if dims pos ! 0 = last (dims x) then
        Inr \<lparr>dims = dims x, elem = (\<lambda>idx. elem pos [last idx] * elem x idx)\<rparr>
      else if dims pos ! 0 = 1 then
        Inr \<lparr>dims = dims x, elem = (\<lambda>idx. elem pos [0] * elem x idx)\<rparr>
      else if last (dims x) = 1 then
        Inr \<lparr>dims = butlast (dims x) @ [dims pos ! 0],
             elem = (\<lambda>idx. elem pos [last idx] * elem x (butlast idx @ [0]))\<rparr>
      else Inl BroadcastError)"

text \<open>\<open>torch.sum(t, dim=-1, keepdim=True)\<close>, for a tensor of rank at least 1.\<close>

definition sum_last_keepdim :: "tensor \<Rightarrow> tensor" where
  "sum_last_keepdim t =
     \<lparr>dims = butlast (dims t) @ [1],
      elem = (\<lambda>idx. \<Sum>k < last (dims t). elem t (butlast idx @ [k]))\<rparr>"

text \<open>\<open>torch.cat([a, b], dim=-1)\<close>: the sizes before the last dimension must agree.\<close>

definition cat_last :: "tensor \<Rightarrow> tensor \<Rightarrow> error + tensor" where
  "cat_last a b =
     (if dims a = [] \<or> dims b = [] then Inl DimensionError
      else if butlast (dims a) \<noteq> butlast (dims b) then Inl CatLastMismatch
      else Inr \<lparr>dims = butlast (dims a) @ [last (dims a) + last (dims b)],
                elem = (\<lambda>idx. if last idx < last (dims a) then elem a idx
                             else elem b (butlast idx @ [last idx - last (dims a)]))\<rparr>)"

text \<open>
  The body of \<open>YNetTorch.softargmax_on_softmax_map\<close>, line by line, with the function
  it calls for the grid as a parameter.
\<close>

definition softargmax_on_softmax_map_with ::
  "(tensor \<Rightarrow> error + (tensor \<times> tensor)) \<Rightarrow> tensor \<Rightarrow> error + tensor" where
  "softargmax_on_softmax_map_with meshgrid x =
     (case meshgrid x of
        Inl e \<Rightarrow> Inl e
      | Inr (pos_y0, pos_x0) \<Rightarrow>
     (let pos_x = reshape_flat pos_x0;
          pos_y = reshape_flat pos_y0
      in case flatten2 x of
        Inl e \<Rightarrow> Inl e
      | Inr x1 \<Rightarrow>
     (case mul_last pos_x x1 of
        Inl e \<Rightarrow> Inl e
      | Inr estimated_x0 \<Rightarrow>
     (let estimated_x = sum_last_keepdim estimated_x0
      in case mul_last pos_y x1 of
        Inl e \<Rightarrow> Inl e
      | Inr estimated_y0 \<Rightarrow>
     (let estimated_y = sum_last_keepdim estimated_y0
      in cat_last estimated_x estimated_y)))))"

text \<open>\<open>YNetTorch.softargmax_on_softmax_map\<close>: the body with \<open>create_meshgrid\<close>.\<close>

definition softargmax_on_softmax_map :: "tensor \<Rightarrow> error + tensor" where
  "softargmax_on_softmax_map x = softargmax_on_softmax_map_with create_meshgrid x"

section \<open>The spatial softmax\<close>






section \<open>Auxiliary functions for the proofs about the decoder\<close>

text \<open>
  The pairs \<open>zip(self.decoder, self.upsample_conv)\<close> written as a recursion over the two
  channel lists: \<open>cin\<close> is the channel count of the running tensor.
\<close>

fun stage_list :: "nat \<Rightarrow> nat list \<Rightarrow> nat list \<Rightarrow> (layer list \<times> layer) list" where
  "stage_list cin (e # es) (d # ds) =
     (decoder_block (e + cin div 2, d), Conv2d cin (cin div 2) 3 1) # stage_list d es ds"
| "stage_list cin es ds = []"

text \<open>
  The loop index of the first skip feature whose batch, height or width differs from the
  running tensor's after upsampling by 2; \<open>None\<close> when every one agrees.
\<close>

fun first_mismatch :: "nat \<Rightarrow> nat \<Rightarrow> nat \<Rightarrow> nat \<Rightarrow> tshape list \<Rightarrow> nat option" where
  "first_mismatch i n h w [] = None"
| "first_mismatch i n h w (f # fs) =
     (if batch f = n \<and> height f = h * 2 \<and> width f = w * 2
      then first_mismatch (Suc i) n (h * 2) (w * 2) fs
      else Some i)"

section \<open>Verified properties\<close>

subsection \<open>The constructors in closed form\<close>

lemma decoder_init_cases:
  "YNetDecoder_init encoder_channels decoder_channels output_len traj =
     (if encoder_channels = [] \<or> decoder_channels = [] then Inl IndexError
      else Inr \<lparr>center =
                  [Conv2d (last encoder_channels + traj) ((last encoder_channels + traj) * 2) 3 1, ReLU,
                   Conv2d ((last encoder_channels + traj) * 2) ((last encoder_channels + traj) * 2) 3 1, ReLU],
                upsample_conv =
                  map (\<lambda>(i, out). Conv2d i out 3 1)
                    (zip ((last encoder_channels + traj) * 2 # butlast decoder_channels)
                       (map (\<lambda>c. c div 2) ((last encoder_channels + traj) * 2 # butlast decoder_channels))),
                decoder =
                  map decoder_block
                    (zip (map (\<lambda>(enc, dec). enc + dec)
                            (zip (rev (map (\<lambda>c. c + traj) encoder_channels))
                               (map (\<lambda>c. c div 2) ((last encoder_channels + traj) * 2 # butlast decoder_channels))))
                       decoder_channels),
                predictor = Conv2d (last decoder_channels) output_len 1 0\<rparr>)"
proof (cases "encoder_channels = []")
  case True
  then show ?thesis by (simp add: YNetDecoder_init_def)
next
  case False
  then obtain cs c where e: "encoder_channels = cs @ [c]"
    by (metis append_butlast_last_id)
  show ?thesis
    by (simp add: YNetDecoder_init_def e Let_def)
qed

lemma encoder_init_cases:
  "YNetEncoder_init in_channels channels =
     (if channels = [] then Inl IndexError
      else Inr \<lparr>stages = [[Conv2d in_channels (hd channels) 3 1, ReLU]]
                 @ map (encoder_block channels) [0..<length channels - 1]
                 @ [[MaxPool2d 2 2]]\<rparr>)"
  by (cases channels) (simp_all add: YNetEncoder_init_def)

subsection \<open>The encoder\<close>

lemma pool_out_2: "pool_out n 2 2 = n div 2"
  by (auto simp: pool_out_def)

lemma encoder_block_run:
  "2 \<le> h \<Longrightarrow> 2 \<le> w \<Longrightarrow> c = channels ! i \<Longrightarrow> 0 < channels ! i \<Longrightarrow> 0 < channels ! (i + 1) \<Longrightarrow>
   sequential (encoder_block channels i) (Shape n c h w)
     = Inr (Shape n (channels ! (i + 1)) (h div 2) (w div 2))"
  by (simp add: encoder_block_def pool_out_2)

lemma div_pow_ge: "(2::nat) ^ Suc k \<le> h \<Longrightarrow> 2 ^ k \<le> h div 2"
  by (simp add: less_eq_div_iff_mult_less_eq mult.commute)

lemma pow_Suc_ge2: "(2::nat) ^ Suc k \<le> h \<Longrightarrow> 2 \<le> h"
proof -
  assume a: "(2::nat) ^ Suc k \<le> h"
  have b: "(2::nat) \<le> 2 ^ Suc k" by simp
  show ?thesis by (rule order_trans[OF b a])
qed

lemma encoder_blocks_run:
  "i + k = m \<Longrightarrow> 2 ^ k \<le> h \<Longrightarrow> 2 ^ k \<le> w \<Longrightarrow> \<forall>j \<le> m. 0 < channels ! j \<Longrightarrow>
   encoder_loop (map (encoder_block channels) [i..<m] @ rest) (Shape n (channels ! i) h w) fs
     = encoder_loop rest (Shape n (channels ! m) (h div 2 ^ k) (w div 2 ^ k))
         (fs @ map (\<lambda>j. Shape n (channels ! (i + j)) (h div 2 ^ j) (w div 2 ^ j)) [1..<Suc k])"
proof (induction k arbitrary: i h w fs)
  case 0
  then show ?case by simp
next
  case (Suc k)
  have im: "i < m" using Suc.prems by simp
  have h2: "2 \<le> h" "2 \<le> w"
    using pow_Suc_ge2[OF Suc.prems(2)] pow_Suc_ge2[OF Suc.prems(3)] by blast+
  have hk: "2 ^ k \<le> h div 2" "2 ^ k \<le> w div 2" using Suc.prems by (simp_all add: div_pow_ge)
  have cpos: "0 < channels ! i" "0 < channels ! (i + 1)" using Suc.prems(4) im by simp_all
  have step: "sequential (encoder_block channels i) (Shape n (channels ! i) h w)
     = Inr (Shape n (channels ! (Suc i)) (h div 2) (w div 2))"
    using encoder_block_run[OF h2 refl cpos] by simp
  have dd: "\<And>a j. (a::nat) div 2 div 2 ^ j = a div 2 ^ Suc j"
    by (simp add: div_mult2_eq)
  have maps: "map (\<lambda>j. Shape n (channels ! (i + j)) (h div 2 ^ j) (w div 2 ^ j)) [1..<Suc (Suc k)]
     = Shape n (channels ! Suc i) (h div 2) (w div 2)
       # map (\<lambda>j. Shape n (channels ! (Suc i + j)) (h div 2 div 2 ^ j) (w div 2 div 2 ^ j)) [1..<Suc k]"
  proof -
    have "[1..<Suc (Suc k)] = 1 # map Suc [1..<Suc k]"
      by (metis One_nat_def map_Suc_upt upt_conv_Cons zero_less_Suc Suc_less_eq)
    then show ?thesis by (simp add: dd o_def)
  qed
  have "Suc i + k = m" using Suc.prems by simp
  from Suc.IH[OF this hk Suc.prems(4), of "fs @ [Shape n (channels ! Suc i) (h div 2) (w div 2)]"]
  show ?case using im step maps by (simp add: upt_conv_Cons dd)
qed

lemma pow_div_ge2: "(2::nat) ^ Suc k \<le> h \<Longrightarrow> 2 \<le> h div 2 ^ k"
  by (simp add: less_eq_div_iff_mult_less_eq mult.commute)

lemma div_pow_Suc: "(a::nat) div 2 ^ k div 2 = a div 2 ^ Suc k"
  using div_mult2_eq[of a "2 ^ k" 2] by (simp add: mult.commute)

lemma nth_pos: "\<forall>c \<in> set cs. 0 < (c::nat) \<Longrightarrow> j < length cs \<Longrightarrow> 0 < cs ! j"
  by simp

lemma encoder_forward_pyramid:
  assumes ne: "channels \<noteq> []"
    and pos: "\<forall>c \<in> set channels. 0 < c" "0 < cin"
    and h: "2 ^ length channels \<le> h" and w: "2 ^ length channels \<le> w"
    and init: "YNetEncoder_init cin channels = Inr e"
  shows "YNetEncoder_forward e (Shape n cin h w)
     = Inr (map (\<lambda>k. Shape n (channels ! k) (h div 2 ^ k) (w div 2 ^ k)) [0..<length channels]
            @ [Shape n (last channels) (h div 2 ^ length channels) (w div 2 ^ length channels)])"
proof -
  obtain P where P: "length channels = Suc P" using ne by (cases channels) auto
  obtain c0 cs where cs: "channels = c0 # cs" using ne by (cases channels) auto
  have st: "stages e = [[Conv2d cin c0 3 1, ReLU]]
                 @ map (encoder_block channels) [0..<P] @ [[MaxPool2d 2 2]]"
    using init P cs by (auto simp: YNetEncoder_init_def)
  have "(2::nat) ^ P \<le> 2 ^ Suc P" by simp
  then have hP: "2 ^ P \<le> h" "2 ^ P \<le> w" using h w P by simp_all
  have "(1::nat) \<le> 2 ^ P" by simp
  then have h1: "1 \<le> h" "1 \<le> w" using hP by linarith+
  have h3: "0 < h div 2 ^ Suc P" "0 < w div 2 ^ Suc P"
    using h w P by (simp_all add: div_greater_zero_iff del: power_Suc)
  have h4: "0 < h div 2 ^ P" "0 < w div 2 ^ P"
    using hP by (simp_all add: div_greater_zero_iff)
  have cj: "\<forall>j \<le> P. 0 < channels ! j" using pos(1) P by simp
  have c0: "channels ! 0 = c0" "0 < c0" using cs pos(1) by simp_all
  have lastc: "last channels = channels ! P" using P ne by (simp add: last_conv_nth)
  have first: "sequential [Conv2d cin c0 3 1, ReLU] (Shape n cin h w) = Inr (Shape n (channels ! 0) h w)"
    using h1 c0 pos(2) by simp
  have blocks: "encoder_loop (map (encoder_block channels) [0..<P] @ [[MaxPool2d 2 2]]) (Shape n (channels ! 0) h w) [Shape n (channels ! 0) h w]
     = encoder_loop [[MaxPool2d 2 2]] (Shape n (channels ! P) (h div 2 ^ P) (w div 2 ^ P))
         ([Shape n (channels ! 0) h w] @ map (\<lambda>j. Shape n (channels ! (0 + j)) (h div 2 ^ j) (w div 2 ^ j)) [1..<Suc P])"
    by (rule encoder_blocks_run) (use hP cj in simp_all)
  have cP: "0 < channels ! P" using cj by simp
  have lastpool: "sequential [MaxPool2d 2 2] (Shape n (channels ! P) (h div 2 ^ P) (w div 2 ^ P))
      = Inr (Shape n (channels ! P) (h div 2 ^ Suc P) (w div 2 ^ Suc P))"
    using h3 h4 cP by (simp add: pool_out_2 div_pow_Suc del: power_Suc)
  have idx: "[0..<Suc P] = 0 # [1..<Suc P]" by (simp add: upt_conv_Cons)
  show ?thesis
    unfolding YNetEncoder_forward_def st P lastc idx using first blocks lastpool
    by (simp del: upt_Suc)
qed

lemma encoder_small_fails:
  assumes "i + k = m" "0 < h" "0 < w" "h < 2 ^ Suc k \<or> w < 2 ^ Suc k" "\<forall>j \<le> m. 0 < channels ! j"
  shows "encoder_loop (map (encoder_block channels) [i..<m] @ [[MaxPool2d 2 2]])
           (Shape n (channels ! i) h w) fs = Inl PoolOutputTooSmall"
  using assms
proof (induction k arbitrary: i h w fs)
  case 0
  then show ?case by (auto simp: pool_out_def)
next
  case (Suc k)
  have im: "i < m" using Suc.prems by simp
  have cpos: "0 < channels ! i" "0 < channels ! (i + 1)" using Suc.prems(5) im by simp_all
  show ?case
  proof (cases "h < 2 \<or> w < 2")
    case True
    then show ?thesis using im cpos Suc.prems(2,3)
      by (auto simp: upt_conv_Cons encoder_block_def pool_out_def)
  next
    case False
    then have h2: "2 \<le> h" "2 \<le> w" by simp_all
    have step: "sequential (encoder_block channels i) (Shape n (channels ! i) h w)
        = Inr (Shape n (channels ! (Suc i)) (h div 2) (w div 2))"
      using encoder_block_run[OF h2 refl cpos] by simp
    have pos: "0 < h div 2" "0 < w div 2" using h2 by simp_all
    have small: "h div 2 < 2 ^ Suc k \<or> w div 2 < 2 ^ Suc k"
      using Suc.prems(4) by (auto simp: less_mult_imp_div_less mult.commute)
    have "Suc i + k = m" using Suc.prems by simp
    from Suc.IH[OF this pos small Suc.prems(5), of "fs @ [Shape n (channels ! Suc i) (h div 2) (w div 2)]"]
    show ?thesis using im step by (simp add: upt_conv_Cons)
  qed
qed

lemma encoder_forward_small:
  assumes ne: "channels \<noteq> []"
    and cpos: "\<forall>c \<in> set channels. 0 < c" "0 < cin"
    and init: "YNetEncoder_init cin channels = Inr e"
    and pos: "0 < h" "0 < w"
    and small: "h < 2 ^ length channels \<or> w < 2 ^ length channels"
  shows "YNetEncoder_forward e (Shape n cin h w) = Inl PoolOutputTooSmall"
proof -
  obtain P where P: "length channels = Suc P" using ne by (cases channels) auto
  have st: "stages e = [[Conv2d cin (hd channels) 3 1, ReLU]]
                 @ map (encoder_block channels) [0..<P] @ [[MaxPool2d 2 2]]"
    using init P ne by (auto simp: encoder_init_cases)
  have c0: "hd channels = channels ! 0" "0 < hd channels" using ne cpos(1) by (simp_all add: hd_conv_nth)
  have cj: "\<forall>j \<le> P. 0 < channels ! j" using cpos(1) P by simp
  have first: "sequential [Conv2d cin (hd channels) 3 1, ReLU] (Shape n cin h w)
      = Inr (Shape n (channels ! 0) h w)"
    using pos c0 cpos(2) by simp
  have rest: "encoder_loop (map (encoder_block channels) [0..<P] @ [[MaxPool2d 2 2]])
           (Shape n (channels ! 0) h w) [Shape n (channels ! 0) h w] = Inl PoolOutputTooSmall"
    by (rule encoder_small_fails) (use pos small P cj in simp_all)
  show ?thesis
    unfolding YNetEncoder_forward_def st using first rest by simp
qed

lemma pow_div_strict: "(2::nat) ^ Suc k \<le> h \<Longrightarrow> h div 2 ^ Suc k < h div 2 ^ k"
proof -
  assume a: "(2::nat) ^ Suc k \<le> h"
  then have "2 \<le> h div 2 ^ k" by (rule pow_div_ge2)
  then have "h div 2 ^ k div 2 < h div 2 ^ k" by simp
  then show ?thesis by (simp only: div_pow_Suc)
qed

text \<open>
  Claim C1, as the code has it. Take a non-empty list of positive encoder channels and an
  input with \<open>semantic_classes + obs_len\<close> channels, at least one. If its height and width
  are at least \<open>2 ^ len(channels)\<close>, the encoder returns \<open>len(channels) + 1\<close> feature
  maps; entry \<open>k\<close> has the input's height and width divided by \<open>2 ^ k\<close>, so each entry is
  strictly coarser than the one before it. If the input is not empty and its height or
  width is below \<open>2 ^ len(channels)\<close>, a max-pool raises.
\<close>

theorem encoder_pyramid_sized:
  assumes ne: "channels \<noteq> []"
    and pos: "\<forall>c \<in> set channels. 0 < c"
    and cin: "0 < semantic_classes + obs_len"
    and ch: "chans x = semantic_classes + obs_len"
  shows "(2 ^ length channels \<le> height x \<and> 2 ^ length channels \<le> width x \<longrightarrow>
          (\<exists>features.
             run_encoder (semantic_classes + obs_len) channels x = Inr features
           \<and> length features = length channels + 1
           \<and> (\<forall>k \<le> length channels.
                 height (features ! k) = height x div 2 ^ k
               \<and> width (features ! k) = width x div 2 ^ k)
           \<and> (\<forall>k < length channels.
                 height (features ! Suc k) < height (features ! k)
               \<and> width (features ! Suc k) < width (features ! k))))
       \<and> (0 < height x \<and> 0 < width x
          \<and> (height x < 2 ^ length channels \<or> width x < 2 ^ length channels) \<longrightarrow>
          run_encoder (semantic_classes + obs_len) channels x = Inl PoolOutputTooSmall)"
proof (intro conjI impI)
  let ?P = "length channels"
  let ?cin = "semantic_classes + obs_len"
  obtain n hh ww where x: "x = Shape n ?cin hh ww" using ch by (cases x) auto
  obtain e where e: "YNetEncoder_init ?cin channels = Inr e"
    using ne by (cases channels) (auto simp: YNetEncoder_init_def)
  {
    assume "0 < height x \<and> 0 < width x \<and> (height x < 2 ^ ?P \<or> width x < 2 ^ ?P)"
    then have "0 < hh" "0 < ww" "hh < 2 ^ ?P \<or> ww < 2 ^ ?P" using x by simp_all
    from encoder_forward_small[OF ne pos cin e this, of n]
    show "run_encoder ?cin channels x = Inl PoolOutputTooSmall"
      using x e by (simp add: run_encoder_def)
  }
  assume big: "2 ^ ?P \<le> height x \<and> 2 ^ ?P \<le> width x"
  then have h: "2 ^ ?P \<le> hh" and w: "2 ^ ?P \<le> ww" using x by simp_all
  let ?fs = "map (\<lambda>k. Shape n (channels ! k) (hh div 2 ^ k) (ww div 2 ^ k)) [0..<?P]
            @ [Shape n (last channels) (hh div 2 ^ ?P) (ww div 2 ^ ?P)]"
  have run: "run_encoder ?cin channels x = Inr ?fs"
    using encoder_forward_pyramid[OF ne pos cin h w e, of n] x e
    by (simp add: run_encoder_def)
  have nth: "height (?fs ! k) = hh div 2 ^ k \<and> width (?fs ! k) = ww div 2 ^ k" if "k \<le> ?P" for k
  proof (cases "k < ?P")
    case True
    then show ?thesis by (simp add: nth_append)
  next
    case False
    with that have "k = ?P" by simp
    then show ?thesis by (simp add: nth_append)
  qed
  have strict: "height (?fs ! Suc k) < height (?fs ! k) \<and> width (?fs ! Suc k) < width (?fs ! k)"
    if k: "k < ?P" for k
  proof -
    have "(2::nat) ^ Suc k \<le> 2 ^ ?P" using k by (simp add: Suc_leI power_increasing del: power_Suc)
    then have "2 ^ Suc k \<le> hh" "2 ^ Suc k \<le> ww" using h w by simp_all
    then have "hh div 2 ^ Suc k < hh div 2 ^ k" "ww div 2 ^ Suc k < ww div 2 ^ k"
      by (simp_all only: pow_div_strict)
    moreover have "Suc k \<le> ?P" "k \<le> ?P" using k by simp_all
    ultimately show ?thesis using nth by simp
  qed
  show "\<exists>features.
             run_encoder ?cin channels x = Inr features
           \<and> length features = length channels + 1
           \<and> (\<forall>k \<le> length channels.
                 height (features ! k) = height x div 2 ^ k
               \<and> width (features ! k) = width x div 2 ^ k)
           \<and> (\<forall>k < length channels.
                 height (features ! Suc k) < height (features ! k)
               \<and> width (features ! Suc k) < width (features ! k))"
    apply (rule exI[of _ ?fs])
    using run nth strict x by simp
qed

theorem encoder_pyramid_sized_witness:
  "(\<exists>features.
      run_encoder (0 + 8) [32, 32, 64, 64, 64] (Shape 1 8 64 64) = Inr features
    \<and> length features = 6
    \<and> height (features ! 5) = 2
    \<and> height (features ! 5) < height (features ! 4))
   \<and> run_encoder (0 + 8) [32, 32, 64, 64, 64] (Shape 1 8 24 24) = Inl PoolOutputTooSmall"
proof -
  have ne: "[32, 32, 64, 64, 64 :: nat] \<noteq> []" by simp
  have pos: "\<forall>c \<in> set [32, 32, 64, 64, 64 :: nat]. 0 < c" by simp
  have cin: "0 < (0::nat) + 8" by simp
  have ch: "chans (Shape 1 8 64 64) = 0 + 8" "chans (Shape 1 8 24 24) = 0 + 8" by simp_all
  have big: "2 ^ length [32, 32, 64, 64, 64 :: nat] \<le> height (Shape 1 8 64 64)
      \<and> 2 ^ length [32, 32, 64, 64, 64 :: nat] \<le> width (Shape 1 8 64 64)" by simp
  from encoder_pyramid_sized[OF ne pos cin ch(1)] big
  obtain features where r: "run_encoder (0 + 8) [32, 32, 64, 64, 64] (Shape 1 8 64 64) = Inr features"
    and l: "length features = length [32, 32, 64, 64, 64 :: nat] + 1"
    and hs: "\<forall>k \<le> length [32, 32, 64, 64, 64 :: nat].
               height (features ! k) = height (Shape 1 8 64 64) div 2 ^ k
             \<and> width (features ! k) = width (Shape 1 8 64 64) div 2 ^ k"
    and st: "\<forall>k < length [32, 32, 64, 64, 64 :: nat].
               height (features ! Suc k) < height (features ! k)
             \<and> width (features ! Suc k) < width (features ! k)"
    by blast
  have l6: "length features = 6" using l by simp
  have "height (features ! 5) = height (Shape 1 8 64 64) div 2 ^ 5" using hs[rule_format, of 5] by simp
  then have h5: "height (features ! 5) = 2" by simp
  have "height (features ! Suc 4) < height (features ! 4)" using st[rule_format, of 4] by simp
  then have lt: "height (features ! 5) < height (features ! 4)" by simp
  have small: "0 < height (Shape 1 8 24 24) \<and> 0 < width (Shape 1 8 24 24)
      \<and> (height (Shape 1 8 24 24) < 2 ^ length [32, 32, 64, 64, 64 :: nat]
         \<or> width (Shape 1 8 24 24) < 2 ^ length [32, 32, 64, 64, 64 :: nat])" by simp
  from encoder_pyramid_sized[OF ne pos cin ch(2)] small
  have s: "run_encoder (0 + 8) [32, 32, 64, 64, 64] (Shape 1 8 24 24) = Inl PoolOutputTooSmall"
    by blast
  show ?thesis using r l6 h5 lt s by blast
qed

text \<open>
  Claim C1 as stated quantifies over every input with the right channel count. With the
  repository's own channels and a 16 x 16 input of 8 channels the fifth max-pool gets a
  1 x 1 map and the forward pass raises: no pyramid is returned.
\<close>

theorem encoder_small_input_counterexample:
  "chans (Shape 1 8 16 16) = 0 + 8
   \<and> run_encoder (0 + 8) [32, 32, 64, 64, 64] (Shape 1 8 16 16) = Inl PoolOutputTooSmall"
  by code_simp

subsection \<open>Construction\<close>

text \<open>
  Claim C9. For every configuration and every conditioning width \<open>w > 0\<close>, the decoder
  built with \<open>traj = w\<close> is the decoder built without \<open>traj\<close> from the encoder channels
  each increased by \<open>w\<close>: the two constructors return the same value (the same error,
  or decoders whose center, upsample convolutions, fusion blocks and predictor have
  the same channel counts), and the forward passes agree on every pyramid.
\<close>

theorem traj_decoder_widens_encoder_channels:
  "0 < w \<Longrightarrow>
     YNetDecoder_init encoder_channels decoder_channels output_len w
       = YNetDecoder_init (map (\<lambda>channel. channel + w) encoder_channels) decoder_channels output_len 0
   \<and> (\<forall>d1 d2 features.
          YNetDecoder_init encoder_channels decoder_channels output_len w = Inr d1
        \<and> YNetDecoder_init (map (\<lambda>channel. channel + w) encoder_channels) decoder_channels output_len 0 = Inr d2
        \<longrightarrow> center d1 = center d2 \<and> upsample_conv d1 = upsample_conv d2
          \<and> decoder d1 = decoder d2 \<and> predictor d1 = predictor d2
          \<and> YNetDecoder_forward d1 features = YNetDecoder_forward d2 features)"
proof -
  assume "0 < w"
  have eq: "YNetDecoder_init encoder_channels decoder_channels output_len w
       = YNetDecoder_init (map (\<lambda>channel. channel + w) encoder_channels) decoder_channels output_len 0"
    by (simp add: decoder_init_cases last_map o_def)
  show ?thesis using eq by auto
qed

theorem traj_decoder_widens_encoder_channels_witness:
  "(0::nat) < 1 \<and>
   YNetDecoder_init [32, 32, 64, 64, 64] [64, 64, 64, 32, 32] 12 1
     = YNetDecoder_init [33, 33, 65, 65, 65] [64, 64, 64, 32, 32] 12 0"
  using traj_decoder_widens_encoder_channels[of 1 "[32, 32, 64, 64, 64]" "[64, 64, 64, 32, 32]" 12]
  by simp

text \<open>
  Claim C3, as the code has it. The decoder's constructor does not compare the lengths
  of the two channel lists. It raises only on an empty list (\<open>IndexError\<close>); for any two
  non-empty lists it returns a decoder with \<open>min(len(encoder_channels),
  len(decoder_channels))\<close> fusion blocks and \<open>len(decoder_channels)\<close> upsample
  convolutions: \<open>zip\<close> cuts the longer list.
\<close>

theorem decoder_init_no_length_check:
  "(encoder_channels = [] \<or> decoder_channels = []
      \<longrightarrow> YNetDecoder_init encoder_channels decoder_channels output_len traj = Inl IndexError)
   \<and> (encoder_channels \<noteq> [] \<and> decoder_channels \<noteq> []
      \<longrightarrow> (\<exists>d. YNetDecoder_init encoder_channels decoder_channels output_len traj = Inr d
             \<and> length (decoder d) = min (length encoder_channels) (length decoder_channels)
             \<and> length (upsample_conv d) = length decoder_channels))"
  by (auto simp add: decoder_init_cases)

theorem decoder_init_no_length_check_witness:
  "\<exists>d. YNetDecoder_init [32, 32] [64, 64, 64, 32, 32] 12 0 = Inr d
       \<and> length (decoder d) = length [32, 32 :: nat]
       \<and> length (upsample_conv d) = length [64, 64, 64, 32, 32 :: nat]"
  using decoder_init_no_length_check[of "[32, 32]" "[64, 64, 64, 32, 32]" 12 0]
  by simp

text \<open>
  Claim C3 as stated: a configuration with \<open>len(decoderChannels) \<noteq> len(encoderChannels) - 1\<close>
  is rejected at construction. The repository's own configuration has two lists of
  length 5, and both the decoder and \<open>get_ynet\<close> are constructed without an error.
\<close>

theorem decoder_init_default_accepted_counterexample:
  "length [64, 64, 64, 32, 32 :: nat] \<noteq> length [32, 32, 64, 64, 64 :: nat] - 1
   \<and> \<not> isl (YNetDecoder_init [32, 32, 64, 64, 64] [64, 64, 64, 32, 32] 12 0)
   \<and> \<not> isl (get_ynet (\<lambda>fp. False) 8 12)"
  by (simp add: decoder_init_cases get_ynet_def YNetTorch_init_def YNetEncoder_init_def)

text \<open>
  Claim C7, as the code has it. With no segmentation file, construction succeeds for
  every \<open>semantic_classes\<close> (the channel lists being non-empty): the segmentation is
  \<open>nn.Identity()\<close> and the encoder is sized for \<open>semantic_classes + obs_len\<close> input
  channels.
\<close>

theorem no_backbone_installs_identity:
  "encoder_channels \<noteq> [] \<Longrightarrow> decoder_channels \<noteq> [] \<Longrightarrow>
   \<exists>m. YNetTorch_init loadable obs_len pred_len None use_features_only semantic_classes
          encoder_channels decoder_channels waypoints = Inr m
      \<and> semantic_segmentation m = Identity
      \<and> YNetEncoder_init (semantic_classes + obs_len) encoder_channels = Inr (encoder m)"
  by (simp add: YNetTorch_init_def decoder_init_cases encoder_init_cases)

theorem no_backbone_installs_identity_witness:
  "\<exists>m. YNetTorch_init (\<lambda>fp. False) 8 12 None False 6 [32, 32, 64, 64, 64] [64, 64, 64, 32, 32] 1 = Inr m
      \<and> semantic_segmentation m = Identity
      \<and> YNetEncoder_init (6 + 8) [32, 32, 64, 64, 64] = Inr (encoder m)"
  using no_backbone_installs_identity[of "[32, 32, 64, 64, 64]" "[64, 64, 64, 32, 32]" "\<lambda>fp. False" 8 12 False 6 1]
  by simp

text \<open>
  Claim C7 as stated: \<open>semanticClasses > 0\<close> without a backbone raises at construction.
  With 6 semantic classes and no file the constructor returns a model whose segmentation
  is the identity.
\<close>

theorem missing_backbone_accepted_counterexample:
  "(0::nat) < 6
   \<and> \<not> isl (YNetTorch_init (\<lambda>fp. False) 8 12 None False 6 [32, 32, 64, 64, 64] [64, 64, 64, 32, 32] 1)
   \<and> map_sum id semantic_segmentation
        (YNetTorch_init (\<lambda>fp. False) 8 12 None False 6 [32, 32, 64, 64, 64] [64, 64, 64, 32, 32] 1)
      = Inr Identity"
  by (simp add: YNetTorch_init_def decoder_init_cases encoder_init_cases)

text \<open>
  Claim C8, as the code has it. When a segmentation file is given and loads, features-only
  mode replaces the segmentation head by the identity and sizes the encoder input for
  \<open>16 + obs_len\<close> channels, whatever \<open>semantic_classes\<close> is.
\<close>

theorem features_only_with_backbone_sixteen:
  "loadable fp \<Longrightarrow> encoder_channels \<noteq> [] \<Longrightarrow> decoder_channels \<noteq> [] \<Longrightarrow>
   \<exists>m. YNetTorch_init loadable obs_len pred_len (Some fp) True semantic_classes
          encoder_channels decoder_channels waypoints = Inr m
      \<and> semantic_segmentation m = Loaded fp True
      \<and> YNetEncoder_init (16 + obs_len) encoder_channels = Inr (encoder m)"
  by (simp add: YNetTorch_init_def decoder_init_cases encoder_init_cases)

theorem features_only_with_backbone_sixteen_witness:
  "\<exists>m. YNetTorch_init (\<lambda>fp. True) 8 12 (Some ''segmentation.pth'') True 6
          [32, 32, 64, 64, 64] [64, 64, 64, 32, 32] 1 = Inr m
      \<and> semantic_segmentation m = Loaded ''segmentation.pth'' True
      \<and> YNetEncoder_init (16 + 8) [32, 32, 64, 64, 64] = Inr (encoder m)"
  using features_only_with_backbone_sixteen[of "\<lambda>fp. True" "''segmentation.pth''"
      "[32, 32, 64, 64, 64]" "[64, 64, 64, 32, 32]" 8 12 6 1]
  by simp

text \<open>
  Claim C8 as stated: features-only mode always gives 16 semantic channels. Without a
  segmentation file the override is not reached: with \<open>use_features_only = True\<close>,
  6 semantic classes and 8 observed steps the encoder is sized for 14 input channels,
  not 24.
\<close>

theorem features_only_without_backbone_counterexample:
  "map_sum id encoder
     (YNetTorch_init (\<lambda>fp. True) 8 12 None True 6 [32, 32, 64, 64, 64] [64, 64, 64, 32, 32] 1)
     = YNetEncoder_init (6 + 8) [32, 32, 64, 64, 64]
   \<and> map_sum id encoder
     (YNetTorch_init (\<lambda>fp. True) 8 12 None True 6 [32, 32, 64, 64, 64] [64, 64, 64, 32, 32] 1)
     \<noteq> YNetEncoder_init (16 + 8) [32, 32, 64, 64, 64]"
  by (simp add: YNetTorch_init_def decoder_init_cases encoder_init_cases)

subsection \<open>Soft-argmax on a normalized map\<close>

lemma softargmax_with_value:
  assumes d: "dims x = [n, c, h, w]"
    and m: "meshgrid x = Inr (pos_y, pos_x)"
    and dy: "dims pos_y = [h, w]" and dx: "dims pos_x = [h, w]"
  shows "case softargmax_on_softmax_map_with meshgrid x of
           Inl e \<Rightarrow> False
         | Inr r \<Rightarrow>
             dims r = [n, c, 2]
           \<and> elem r [b, ch, 0]
               = (\<Sum>k < h * w. elem pos_x [k div w, k mod w] * elem x [b, ch, k div w, k mod w])
           \<and> elem r [b, ch, 1]
               = (\<Sum>k < h * w. elem pos_y [k div w, k mod w] * elem x [b, ch, k div w, k mod w])"
  by (simp add: softargmax_on_softmax_map_with_def m d dx dy reshape_flat_def
      flatten2_def mul_last_def sum_last_keepdim_def cat_last_def Let_def)

lemma create_meshgrid_4d:
  "dims x = [n, c, h, w] \<Longrightarrow>
   create_meshgrid x = Inr (\<lparr>dims = [h, w], elem = (\<lambda>idx. real (idx ! 0))\<rparr>,
                            \<lparr>dims = [h, w], elem = (\<lambda>idx. real (idx ! 1))\<rparr>)"
  by (simp add: create_meshgrid_def)

lemma softargmax_value:
  assumes d: "dims x = [n, c, h, w]"
  shows "case softargmax_on_softmax_map x of
           Inl e \<Rightarrow> False
         | Inr r \<Rightarrow>
             dims r = [n, c, 2]
           \<and> elem r [b, ch, 0] = (\<Sum>k < h * w. real (k mod w) * elem x [b, ch, k div w, k mod w])
           \<and> elem r [b, ch, 1] = (\<Sum>k < h * w. real (k div w) * elem x [b, ch, k div w, k mod w])"
proof (cases "softargmax_on_softmax_map_with create_meshgrid x")
  case (Inl e)
  then show ?thesis
    using softargmax_with_value[where meshgrid = create_meshgrid, OF d create_meshgrid_4d[OF d]]
    by simp
next
  case (Inr r)
  then show ?thesis
    using softargmax_with_value[where meshgrid = create_meshgrid, OF d create_meshgrid_4d[OF d], of b ch]
    by (simp add: softargmax_on_softmax_map_def)
qed

text \<open>
  Claim C10, as the code has it. For an input of size \<open>n x c x h x w\<close> and a grid function
  returning two \<open>h x w\<close> grids, the soft-argmax on a normalized map returns a tensor of size
  \<open>n x c x 2\<close>, for every \<open>c\<close>: entry 0 is the sum over the grid of the second grid
  (\<open>pos_x\<close>) times the value, entry 1 the sum of the first grid (\<open>pos_y\<close>) times the
  value. Nothing squeezes the channel dimension.
\<close>

theorem softargmax_shape_three_dims:
  assumes d: "dims x = [n, c, h, w]"
    and m: "meshgrid x = Inr (pos_y, pos_x)"
    and dy: "dims pos_y = [h, w]" and dx: "dims pos_x = [h, w]"
  shows "\<exists>r. softargmax_on_softmax_map_with meshgrid x = Inr r
           \<and> dims r = [n, c, 2]
           \<and> (\<forall>b ch.
                 elem r [b, ch, 0]
                   = (\<Sum>k < h * w. elem pos_x [k div w, k mod w] * elem x [b, ch, k div w, k mod w])
               \<and> elem r [b, ch, 1]
                   = (\<Sum>k < h * w. elem pos_y [k div w, k mod w] * elem x [b, ch, k div w, k mod w]))"
proof (cases "softargmax_on_softmax_map_with meshgrid x")
  case (Inl e)
  then show ?thesis using softargmax_with_value[where meshgrid = meshgrid, OF d m dy dx] by simp
next
  case (Inr r)
  have "dims r = [n, c, 2]
           \<and> elem r [b, ch, 0]
               = (\<Sum>k < h * w. elem pos_x [k div w, k mod w] * elem x [b, ch, k div w, k mod w])
           \<and> elem r [b, ch, 1]
               = (\<Sum>k < h * w. elem pos_y [k div w, k mod w] * elem x [b, ch, k div w, k mod w])"
    for b ch
    using softargmax_with_value[where meshgrid = meshgrid, OF d m dy dx, of b ch] Inr by simp
  then show ?thesis using Inr by blast
qed

theorem softargmax_shape_three_dims_witness:
  "\<exists>r. softargmax_on_softmax_map \<lparr>dims = [4, 1, 2, 2], elem = (\<lambda>idx. 1 / 4)\<rparr> = Inr r
       \<and> dims r = [4, 1, 2]"
proof -
  let ?x = "\<lparr>dims = [4, 1, 2, 2], elem = (\<lambda>idx. 1 / 4 :: real)\<rparr>"
  have d: "dims ?x = [4, 1, 2, 2]" by simp
  have "\<exists>r. softargmax_on_softmax_map_with create_meshgrid ?x = Inr r \<and> dims r = [4, 1, 2]
           \<and> (\<forall>b ch.
                 elem r [b, ch, 0]
                   = (\<Sum>k < 2 * 2. elem \<lparr>dims = [2, 2], elem = (\<lambda>idx. real (idx ! 1))\<rparr> [k div 2, k mod 2] * elem ?x [b, ch, k div 2, k mod 2])
               \<and> elem r [b, ch, 1]
                   = (\<Sum>k < 2 * 2. elem \<lparr>dims = [2, 2], elem = (\<lambda>idx. real (idx ! 0))\<rparr> [k div 2, k mod 2] * elem ?x [b, ch, k div 2, k mod 2]))"
    by (rule softargmax_shape_three_dims[where meshgrid = create_meshgrid, OF d create_meshgrid_4d[OF d]]) simp_all
  then show ?thesis unfolding softargmax_on_softmax_map_def by blast
qed

text \<open>
  Claim C10 as stated: with one channel the result is 2D, \<open>batch x 2\<close>. For an input of
  size \<open>4 x 1 x 2 x 2\<close> the result has size \<open>4 x 1 x 2\<close>.
\<close>

theorem softargmax_single_channel_counterexample:
  "map_sum id dims (softargmax_on_softmax_map \<lparr>dims = [4, 1, 2, 2], elem = (\<lambda>idx. 1 / 4)\<rparr>)
     = Inr [4, 1, 2]
   \<and> map_sum id dims (softargmax_on_softmax_map \<lparr>dims = [4, 1, 2, 2], elem = (\<lambda>idx. 1 / 4)\<rparr>)
     \<noteq> Inr [4, 2]"
  by (simp add: softargmax_on_softmax_map_def softargmax_on_softmax_map_with_def create_meshgrid_def reshape_flat_def
      flatten2_def mul_last_def sum_last_keepdim_def cat_last_def Let_def)

lemma cell_index:
  assumes "j < (w::nat)"
  shows "(k div w = i \<and> k mod w = j) \<longleftrightarrow> k = i * w + j"
proof
  assume "k div w = i \<and> k mod w = j"
  then show "k = i * w + j" using div_mult_mod_eq[of k w] by auto
next
  assume "k = i * w + j"
  then show "k div w = i \<and> k mod w = j" using assms by simp
qed

lemma cell_in_range:
  assumes "i < (h::nat)" "j < (w::nat)"
  shows "i * w + j < h * w"
proof -
  have "i * w + j < i * w + w" using assms by simp
  also have "\<dots> = Suc i * w" by simp
  also have "\<dots> \<le> h * w" using assms by (intro mult_le_mono1) simp
  finally show ?thesis .
qed

lemma one_hot_sum:
  assumes i: "i < (h::nat)" and j: "j < (w::nat)"
    and hot: "\<forall>r < h. \<forall>q < w. f r q = (if r = i \<and> q = j then 1 else (0::real))"
  shows "(\<Sum>k < h * w. g k * f (k div w) (k mod w)) = g (i * w + j)"
proof -
  have w0: "0 < w" using j by simp
  have "(\<Sum>k < h * w. g k * f (k div w) (k mod w))
      = (\<Sum>k < h * w. if k = i * w + j then g k else 0)"
  proof (rule sum.cong)
    fix k assume "k \<in> {..<h * w}"
    then have k: "k < h * w" by simp
    then have "k div w < h" by (simp add: less_mult_imp_div_less)
    moreover have "k mod w < w" using w0 by simp
    ultimately have "f (k div w) (k mod w) = (if k div w = i \<and> k mod w = j then 1 else 0)"
      using hot by blast
    then show "g k * f (k div w) (k mod w) = (if k = i * w + j then g k else 0)"
      using cell_index[OF j, of k i] by simp
  qed simp
  also have "\<dots> = g (i * w + j)"
    using cell_in_range[OF i j] by (simp add: sum.delta)
  finally show ?thesis .
qed

text \<open>
  Claim C4. If channel \<open>ch\<close> of batch element \<open>b\<close> is 1 at cell \<open>(i, j)\<close> (row \<open>i\<close>,
  column \<open>j\<close>) and 0 elsewhere on the \<open>h x w\<close> grid, the soft-argmax on the normalized
  map returns for that channel the pair \<open>(j, i)\<close>: the column index first, the row index
  second. On such an input every product is by 0 or 1 and every sum adds zeros to one
  value, so the exact arithmetic of the model is also what floats compute.
\<close>

theorem softargmax_one_hot:
  assumes d: "dims x = [n, c, h, w]"
    and b: "b < n" and ch: "ch < c" and i: "i < h" and j: "j < w"
    and hot: "\<forall>r < h. \<forall>q < w. elem x [b, ch, r, q] = (if r = i \<and> q = j then 1 else 0)"
  shows "\<exists>r. softargmax_on_softmax_map x = Inr r
           \<and> dims r = [n, c, 2]
           \<and> elem r [b, ch, 0] = real j
           \<and> elem r [b, ch, 1] = real i"
proof (cases "softargmax_on_softmax_map x")
  case (Inl e)
  then show ?thesis using softargmax_value[OF d] by simp
next
  case (Inr r)
  have v: "dims r = [n, c, 2]
           \<and> elem r [b, ch, 0] = (\<Sum>k < h * w. real (k mod w) * elem x [b, ch, k div w, k mod w])
           \<and> elem r [b, ch, 1] = (\<Sum>k < h * w. real (k div w) * elem x [b, ch, k div w, k mod w])"
    using softargmax_value[OF d, of b ch] Inr by simp
  have "(\<Sum>k < h * w. real (k mod w) * elem x [b, ch, k div w, k mod w]) = real ((i * w + j) mod w)"
    using one_hot_sum[OF i j, of "\<lambda>r q. elem x [b, ch, r, q]" "\<lambda>k. real (k mod w)"] hot by simp
  moreover have "(\<Sum>k < h * w. real (k div w) * elem x [b, ch, k div w, k mod w]) = real ((i * w + j) div w)"
    using one_hot_sum[OF i j, of "\<lambda>r q. elem x [b, ch, r, q]" "\<lambda>k. real (k div w)"] hot by simp
  moreover have "(i * w + j) mod w = j" "(i * w + j) div w = i" using j by simp_all
  ultimately show ?thesis using v Inr by simp
qed

theorem softargmax_one_hot_witness:
  "\<exists>r. softargmax_on_softmax_map
          \<lparr>dims = [1, 2, 3, 4], elem = (\<lambda>idx. if idx = [0, 1, 2, 3] then 1 else 0)\<rparr> = Inr r
       \<and> elem r [0, 1, 0] = 3
       \<and> elem r [0, 1, 1] = 2"
proof -
  let ?x = "\<lparr>dims = [1, 2, 3, 4], elem = (\<lambda>idx. if idx = [0, 1, 2, 3::nat] then 1 else (0::real))\<rparr>"
  have d: "dims ?x = [1, 2, 3, 4]" by simp
  have hot: "\<forall>r < 3. \<forall>q < 4. elem ?x [0, 1, r, q] = (if r = 2 \<and> q = 3 then 1 else 0)" by simp
  have "\<exists>r. softargmax_on_softmax_map ?x = Inr r \<and> dims r = [1, 2, 2]
           \<and> elem r [0, 1, 0] = real 3 \<and> elem r [0, 1, 1] = real 2"
    by (rule softargmax_one_hot[OF d _ _ _ _ hot]) simp_all
  then show ?thesis by auto
qed

subsection \<open>The decoder\<close>

lemma stage_list_zip:
  "zip (map decoder_block
          (zip (map (\<lambda>(enc, dec). enc + dec) (zip es (map (\<lambda>c. c div 2) (cin # butlast ds)))) ds))
       (map (\<lambda>(i, out). Conv2d i out 3 1)
          (zip (cin # butlast ds) (map (\<lambda>c. c div 2) (cin # butlast ds))))
   = stage_list cin es ds"
proof (induction ds arbitrary: es cin)
  case Nil
  then show ?case by (cases es) simp_all
next
  case (Cons d ds)
  show ?case
  proof (cases es)
    case Nil
    then show ?thesis by simp
  next
    case (Cons e es')
    show ?thesis
    proof (cases ds)
      case Nil
      then show ?thesis using Cons by (cases es') simp_all
    next
      case (Cons d' ds')
      then show ?thesis using Cons.IH[of es' d] \<open>es = e # es'\<close> by simp
    qed
  qed
qed

lemma decoder_step:
  assumes "2 \<le> cin" "0 < d" "0 < h" "0 < w"
  shows "decoder_loop i (Shape n cin h w) used
           ((f, decoder_block (chans f + cin div 2, d), Conv2d cin (cin div 2) 3 1) # rest)
       = (if batch f = n \<and> height f = h * 2 \<and> width f = w * 2
          then decoder_loop (Suc i) (Shape n d (h * 2) (w * 2)) (used @ [f]) rest
          else Inl (CatSizeMismatch i))"
proof -
  have "0 < cin div 2" "0 < cin" using assms(1) by simp_all
  then show ?thesis
    using assms by (auto simp add: interpolate_def cat_dim1_def decoder_block_def add.commute)
qed

lemma decoder_loop_run:
  assumes "length ds \<le> length fs" "\<forall>c \<in> set (butlast (cin # ds)). 2 \<le> c"
    "\<forall>d \<in> set ds. 0 < d" "0 < h" "0 < w"
  shows "decoder_loop i (Shape n cin h w) used (zip fs (stage_list cin (map chans fs) ds))
       = (case first_mismatch i n h w (take (length ds) fs) of
            Some k \<Rightarrow> Inl (CatSizeMismatch k)
          | None \<Rightarrow> Inr (Shape n (last (cin # ds)) (h * 2 ^ length ds) (w * 2 ^ length ds),
                         used @ take (length ds) fs))"
  using assms
proof (induction ds arbitrary: fs i cin h w used)
  case Nil
  then show ?case by (cases "map chans fs") simp_all
next
  case (Cons d ds)
  then obtain f fs' where fs: "fs = f # fs'" by (cases fs) auto
  have len: "length ds \<le> length fs'" using Cons.prems(1) fs by simp
  have cin: "2 \<le> cin" and two: "\<forall>c \<in> set (butlast (d # ds)). 2 \<le> c"
    using Cons.prems(2) by simp_all
  have d: "0 < d" "\<forall>d \<in> set ds. 0 < d" using Cons.prems(3) by simp_all
  have h2: "0 < h * 2" "0 < w * 2" using Cons.prems by simp_all
  note IH = Cons.IH[OF len two d(2) h2, where i = "Suc i" and used = "used @ [f]"]
  note step = decoder_step[OF cin d(1) Cons.prems(4) Cons.prems(5),
      where i = i and n = n and used = used and f = f]
  show ?case
  proof (cases "batch f = n \<and> height f = h * 2 \<and> width f = w * 2")
    case True
    have "decoder_loop i (Shape n cin h w) used (zip fs (stage_list cin (map chans fs) (d # ds)))
        = decoder_loop (Suc i) (Shape n d (h * 2) (w * 2)) (used @ [f])
            (zip fs' (stage_list d (map chans fs') ds))"
      using step True fs by simp
    also have "\<dots> = (case first_mismatch (Suc i) n (h * 2) (w * 2) (take (length ds) fs') of
            Some k \<Rightarrow> Inl (CatSizeMismatch k)
          | None \<Rightarrow> Inr (Shape n (last (d # ds)) (h * 2 * 2 ^ length ds) (w * 2 * 2 ^ length ds),
                         (used @ [f]) @ take (length ds) fs'))"
      by (rule IH)
    finally show ?thesis using True fs by (simp add: mult.assoc split: option.split)
  next
    case False
    then show ?thesis using step fs by auto
  qed
qed

lemma decoder_init_fields:
  assumes init: "YNetDecoder_init enc dec out traj = Inr d"
  shows "enc \<noteq> []" "dec \<noteq> []"
    and "center d = [Conv2d (last enc + traj) ((last enc + traj) * 2) 3 1, ReLU,
                    Conv2d ((last enc + traj) * 2) ((last enc + traj) * 2) 3 1, ReLU]"
    and "predictor d = Conv2d (last dec) out 1 0"
    and "zip (decoder d) (upsample_conv d)
           = stage_list ((last enc + traj) * 2) (rev (map (\<lambda>c. c + traj) enc)) dec"
proof -
  show ne: "enc \<noteq> []" "dec \<noteq> []"
    using init by (auto simp: decoder_init_cases split: if_splits)
  then have "\<not> (enc = [] \<or> dec = [])" by simp
  then have dd: "d = \<lparr>center =
                  [Conv2d (last enc + traj) ((last enc + traj) * 2) 3 1, ReLU,
                   Conv2d ((last enc + traj) * 2) ((last enc + traj) * 2) 3 1, ReLU],
                upsample_conv =
                  map (\<lambda>(i, out). Conv2d i out 3 1)
                    (zip ((last enc + traj) * 2 # butlast dec)
                       (map (\<lambda>c. c div 2) ((last enc + traj) * 2 # butlast dec))),
                decoder =
                  map decoder_block
                    (zip (map (\<lambda>(enc, dec). enc + dec)
                            (zip (rev (map (\<lambda>c. c + traj) enc))
                               (map (\<lambda>c. c div 2) ((last enc + traj) * 2 # butlast dec))))
                       dec),
                predictor = Conv2d (last dec) out 1 0\<rparr>"
    using init unfolding decoder_init_cases by (simp only: if_False sum.inject)
  show "center d = [Conv2d (last enc + traj) ((last enc + traj) * 2) 3 1, ReLU,
                    Conv2d ((last enc + traj) * 2) ((last enc + traj) * 2) 3 1, ReLU]"
    by (simp only: dd ynet_decoder.select_convs)
  show "predictor d = Conv2d (last dec) out 1 0"
    by (simp only: dd ynet_decoder.select_convs)
  show "zip (decoder d) (upsample_conv d)
           = stage_list ((last enc + traj) * 2) (rev (map (\<lambda>c. c + traj) enc)) dec"
    by (simp only: dd ynet_decoder.select_convs stage_list_zip)
qed

lemma decoder_forward_run:
  assumes init: "YNetDecoder_init enc dec out traj = Inr d"
    and len: "length dec \<le> length enc"
    and pos: "0 < last enc + traj" "\<forall>c \<in> set dec. 0 < c" "\<forall>c \<in> set (butlast dec). 2 \<le> c"
      "0 < out"
    and feats: "rev features = Shape n (last enc + traj) h w # fs"
    and fs: "length fs = length enc" "map chans fs = rev (map (\<lambda>c. c + traj) enc)"
    and hw: "0 < h" "0 < w"
  shows "YNetDecoder_forward_trace d features
       = (case first_mismatch 0 n h w (take (length dec) fs) of
            Some k \<Rightarrow> Inl (CatSizeMismatch k)
          | None \<Rightarrow> Inr (Shape n out (h * 2 ^ length dec) (w * 2 ^ length dec),
                         take (length dec) fs))"
proof -
  let ?c = "last enc + traj"
  note ne = decoder_init_fields(1,2)[OF init]
  have d: "center d = [Conv2d ?c (?c * 2) 3 1, ReLU, Conv2d (?c * 2) (?c * 2) 3 1, ReLU]"
    "predictor d = Conv2d (last dec) out 1 0"
    "zip (decoder d) (upsample_conv d) = stage_list (?c * 2) (map chans fs) dec"
    using decoder_init_fields(3,4,5)[OF init] by (simp_all only: fs(2))
  have cen: "sequential (center d) (Shape n ?c h w) = Inr (Shape n (?c * 2) h w)"
    using hw pos(1) by (simp add: d(1))
  have c2: "2 \<le> ?c * 2" using pos(1) by (cases "last enc + traj") simp_all
  have two: "\<forall>c \<in> set (butlast (?c * 2 # dec)). 2 \<le> c"
    using c2 pos(3) ne(2) by simp
  have lfs: "length dec \<le> length fs" using len fs(1) by simp
  have loop: "decoder_loop 0 (Shape n (?c * 2) h w) [] (zip fs (stage_list (?c * 2) (map chans fs) dec))
       = (case first_mismatch 0 n h w (take (length dec) fs) of
            Some k \<Rightarrow> Inl (CatSizeMismatch k)
          | None \<Rightarrow> Inr (Shape n (last (?c * 2 # dec)) (h * 2 ^ length dec) (w * 2 ^ length dec),
                         [] @ take (length dec) fs))"
    by (rule decoder_loop_run[OF lfs two pos(2) hw])
  have lastpos: "0 < last dec" using pos(2) ne(2) by simp
  have pred: "apply_layer (predictor d) (Shape n (last (?c * 2 # dec)) hh ww)
       = Inr (Shape n out hh ww)" if "0 < hh" "0 < ww" for hh ww
    using that ne lastpos pos(4) by (simp add: d(2))
  have big: "0 < h * 2 ^ length dec" "0 < w * 2 ^ length dec" using hw by simp_all
  show ?thesis
    unfolding YNetDecoder_forward_trace_def feats
    using cen loop pred[OF big] d(3)
    by (simp split: option.split)
qed

lemma first_mismatch_None_iff:
  "first_mismatch i n h w fs = None \<longleftrightarrow>
     (\<forall>k < length fs. batch (fs ! k) = n \<and> height (fs ! k) = h * 2 ^ Suc k
                     \<and> width (fs ! k) = w * 2 ^ Suc k)"
proof (induction fs arbitrary: i h w)
  case Nil
  then show ?case by simp
next
  case (Cons f fs)
  show ?case
  proof (cases "batch f = n \<and> height f = h * 2 \<and> width f = w * 2")
    case True
    then show ?thesis
      using Cons.IH[of "Suc i" "h * 2" "w * 2"]
      by (auto simp: less_Suc_eq_0_disj mult.assoc)
  next
    case False
    then show ?thesis by auto
  qed
qed

lemma first_mismatch_Some:
  "first_mismatch i n h w fs = Some m \<Longrightarrow>
     \<exists>j < length fs. m = i + j
       \<and> \<not> (batch (fs ! j) = n \<and> height (fs ! j) = h * 2 ^ Suc j \<and> width (fs ! j) = w * 2 ^ Suc j)
       \<and> (\<forall>k < j. batch (fs ! k) = n \<and> height (fs ! k) = h * 2 ^ Suc k
                    \<and> width (fs ! k) = w * 2 ^ Suc k)"
proof (induction fs arbitrary: i h w)
  case Nil
  then show ?case by simp
next
  case (Cons f fs)
  show ?case
  proof (cases "batch f = n \<and> height f = h * 2 \<and> width f = w * 2")
    case True
    then have "first_mismatch (Suc i) n (h * 2) (w * 2) fs = Some m"
      using Cons.prems by simp
    from Cons.IH[OF this] obtain j where j: "j < length fs" "m = Suc i + j"
      "\<not> (batch (fs ! j) = n \<and> height (fs ! j) = h * 2 * 2 ^ Suc j \<and> width (fs ! j) = w * 2 * 2 ^ Suc j)"
      "\<forall>k < j. batch (fs ! k) = n \<and> height (fs ! k) = h * 2 * 2 ^ Suc k
                    \<and> width (fs ! k) = w * 2 * 2 ^ Suc k"
      by blast
    show ?thesis
    proof (intro exI[of _ "Suc j"] conjI)
      show "Suc j < length (f # fs)" using j(1) by simp
      show "m = i + Suc j" using j(2) by simp
      show "\<not> (batch ((f # fs) ! Suc j) = n \<and> height ((f # fs) ! Suc j) = h * 2 ^ Suc (Suc j)
               \<and> width ((f # fs) ! Suc j) = w * 2 ^ Suc (Suc j))"
        using j(3) by (simp add: mult.assoc)
      show "\<forall>k < Suc j. batch ((f # fs) ! k) = n \<and> height ((f # fs) ! k) = h * 2 ^ Suc k
                    \<and> width ((f # fs) ! k) = w * 2 ^ Suc k"
        using j(4) True by (auto simp: less_Suc_eq_0_disj mult.assoc)
    qed
  next
    case False
    then have "m = i" using Cons.prems by auto
    then show ?thesis using False by (intro exI[of _ 0]) auto
  qed
qed


lemma pyramid_doubling:
  assumes half: "\<forall>k < P. batch (features ! k) = batch (features ! Suc k)
                   \<and> height (features ! k) = 2 * height (features ! Suc k)
                   \<and> width (features ! k) = 2 * width (features ! Suc k)"
    and m: "m \<le> P"
  shows "batch (features ! (P - m)) = batch (features ! P)
       \<and> height (features ! (P - m)) = height (features ! P) * 2 ^ m
       \<and> width (features ! (P - m)) = width (features ! P) * 2 ^ m"
  using m
proof (induction m)
  case 0
  then show ?case by simp
next
  case (Suc m)
  then have lt: "P - Suc m < P" and suc: "Suc (P - Suc m) = P - m" by simp_all
  from half lt have "batch (features ! (P - Suc m)) = batch (features ! Suc (P - Suc m))
       \<and> height (features ! (P - Suc m)) = 2 * height (features ! Suc (P - Suc m))
       \<and> width (features ! (P - Suc m)) = 2 * width (features ! Suc (P - Suc m))"
    by blast
  then show ?case using Suc suc by simp
qed

lemma pyramid_reversed:
  assumes len: "length features = Suc P"
  shows "rev features = features ! P # rev (butlast features)"
    and "length (rev (butlast features)) = P"
    and "k < P \<Longrightarrow> rev (butlast features) ! k = features ! (P - Suc k)"
    and "last features = features ! P"
    and "hd features = features ! 0"
proof -
  have ne: "features \<noteq> []" using len by auto
  show l: "last features = features ! P" using len ne by (simp add: last_conv_nth)
  have "features = butlast features @ [last features]" using ne by simp
  then have "rev features = last features # rev (butlast features)"
    by (metis rev.simps(2) rev_rev_ident rev_singleton_conv rev_append append_Cons append_Nil)
  then show "rev features = features ! P # rev (butlast features)" using l by simp
  show "length (rev (butlast features)) = P" using len by simp
  show "hd features = features ! 0" using ne by (simp add: hd_conv_nth)
  show "rev (butlast features) ! k = features ! (P - Suc k)" if "k < P"
    using that len by (simp add: rev_nth nth_butlast)
qed

text \<open>
  Claim C2, as the code has it. Let the encoder channels be positive, the decoder
  channels positive and, but for the last, at least 2 (the upsample convolution halves
  them), \<open>output_len\<close> at least 1, and the decoder list non-empty and not longer than the
  encoder list. Let the pyramid have \<open>len(encoder_channels) + 1\<close> entries whose channel
  counts are the encoder's (plus the conditioning width), the last entry having the
  channels of the one before it, each entry having the batch size and twice the height
  and width of the next. Then the decoder is constructed and its forward pass returns;
  the features it concatenates are exactly the \<open>len(decoder_channels)\<close> entries before the
  bottleneck, read from the coarsest on; the result has \<open>output_len\<close> channels and the
  height and width of the last entry read, entry
  \<open>len(encoder_channels) - len(decoder_channels)\<close> of the pyramid. That is the first
  (finest) entry when the two lists have the same length.
\<close>

theorem decoder_reads_all_skips:
  assumes ne: "encoder_channels \<noteq> []" and dne: "decoder_channels \<noteq> []"
    and len: "length decoder_channels \<le> length encoder_channels"
    and pos: "\<forall>c \<in> set encoder_channels. 0 < c" "\<forall>c \<in> set decoder_channels. 0 < c"
    and two: "\<forall>c \<in> set (butlast decoder_channels). 2 \<le> c"
    and out: "0 < output_len"
    and pyr_len: "length features = length encoder_channels + 1"
    and pyr_ch: "\<forall>k < length encoder_channels. chans (features ! k) = encoder_channels ! k + traj"
    and pyr_last: "chans (last features) = last encoder_channels + traj"
    and pyr_half: "\<forall>k < length encoder_channels.
                       batch (features ! k) = batch (features ! Suc k)
                     \<and> height (features ! k) = 2 * height (features ! Suc k)
                     \<and> width (features ! k) = 2 * width (features ! Suc k)"
    and nonempty: "0 < height (last features)" "0 < width (last features)"
  shows "\<exists>d y. YNetDecoder_init encoder_channels decoder_channels output_len traj = Inr d
           \<and> YNetDecoder_forward_trace d features
               = Inr (y, take (length decoder_channels) (rev (butlast features)))
           \<and> YNetDecoder_forward d features = Inr y
           \<and> length (take (length decoder_channels) (rev (butlast features)))
               = length decoder_channels
           \<and> chans y = output_len
           \<and> batch y = batch (features ! (length encoder_channels - length decoder_channels))
           \<and> height y = height (features ! (length encoder_channels - length decoder_channels))
           \<and> width y = width (features ! (length encoder_channels - length decoder_channels))
           \<and> (length decoder_channels = length encoder_channels
                \<longrightarrow> height y = height (hd features) \<and> width y = width (hd features))"
proof -
  let ?P = "length encoder_channels"
  let ?D = "length decoder_channels"
  let ?fs = "rev (butlast features)"
  have lenS: "length features = Suc ?P" using pyr_len by simp
  note pr = pyramid_reversed[OF lenS]
  obtain d where init: "YNetDecoder_init encoder_channels decoder_channels output_len traj = Inr d"
    using ne dne by (auto simp: decoder_init_cases)
  obtain n h w where cf: "features ! ?P = Shape n (last encoder_channels + traj) h w"
    using pyr_last pr(4) by (cases "features ! ?P") auto
  have hw: "0 < h" "0 < w" using nonempty pr(4) cf by simp_all
  have posc: "0 < last encoder_channels + traj" using pos(1) ne by (simp add: add_pos_nonneg)
  have feats: "rev features = Shape n (last encoder_channels + traj) h w # ?fs"
    using pr(1) cf by simp
  have chs: "map chans ?fs = rev (map (\<lambda>c. c + traj) encoder_channels)"
  proof (rule nth_equalityI)
    show "length (map chans ?fs) = length (rev (map (\<lambda>c. c + traj) encoder_channels))"
      using pr(2) by simp
  next
    fix k assume "k < length (map chans ?fs)"
    then have k: "k < ?P" using pr(2) by simp
    then have "map chans ?fs ! k = chans (features ! (?P - Suc k))"
      using pr(2) pr(3)[OF k] by simp
    also have "\<dots> = encoder_channels ! (?P - Suc k) + traj" using pyr_ch k by simp
    also have "\<dots> = rev (map (\<lambda>c. c + traj) encoder_channels) ! k" using k by (simp add: rev_nth)
    finally show "map chans ?fs ! k = rev (map (\<lambda>c. c + traj) encoder_channels) ! k" .
  qed
  have ltake: "length (take ?D ?fs) = ?D" using pr(2) len by simp
  have match: "\<forall>k < length (take ?D ?fs). batch (take ?D ?fs ! k) = n
                     \<and> height (take ?D ?fs ! k) = h * 2 ^ Suc k
                     \<and> width (take ?D ?fs ! k) = w * 2 ^ Suc k"
  proof (intro allI impI)
    fix k assume "k < length (take ?D ?fs)"
    then have kD: "k < ?D" using ltake by simp
    then have k: "k < ?P" using len by simp
    then have "Suc k \<le> ?P" by simp
    from pyramid_doubling[OF pyr_half this] pr(3)[OF k] cf kD
    show "batch (take ?D ?fs ! k) = n \<and> height (take ?D ?fs ! k) = h * 2 ^ Suc k
        \<and> width (take ?D ?fs ! k) = w * 2 ^ Suc k"
      by simp
  qed
  then have none: "first_mismatch 0 n h w (take ?D ?fs) = None"
    by (simp only: first_mismatch_None_iff)
  have run: "YNetDecoder_forward_trace d features
       = Inr (Shape n output_len (h * 2 ^ ?D) (w * 2 ^ ?D), take ?D ?fs)"
    using decoder_forward_run[OF init len posc pos(2) two out feats pr(2) chs hw] none by simp
  have top: "batch (features ! (?P - ?D)) = n \<and> height (features ! (?P - ?D)) = h * 2 ^ ?D
       \<and> width (features ! (?P - ?D)) = w * 2 ^ ?D"
    using pyramid_doubling[OF pyr_half len] cf by simp
  have fin: "?D = ?P \<longrightarrow> height (hd features) = h * 2 ^ ?D \<and> width (hd features) = w * 2 ^ ?D"
    using top pr(5) by auto
  show ?thesis
    apply (rule exI[of _ d])
    apply (rule exI[of _ "Shape n output_len (h * 2 ^ ?D) (w * 2 ^ ?D)"])
    using init run top ltake fin by (simp add: YNetDecoder_forward_def)
qed

theorem decoder_reads_all_skips_witness:
  "\<exists>d y. YNetDecoder_init [32, 32, 64, 64, 64] [64, 64, 64, 32, 32] 12 0 = Inr d
      \<and> YNetDecoder_forward_trace d
           [Shape 1 32 64 64, Shape 1 32 32 32, Shape 1 64 16 16, Shape 1 64 8 8,
            Shape 1 64 4 4, Shape 1 64 2 2]
         = Inr (y, [Shape 1 64 4 4, Shape 1 64 8 8, Shape 1 64 16 16, Shape 1 32 32 32,
                    Shape 1 32 64 64])
      \<and> chans y = 12 \<and> height y = 64 \<and> width y = 64"
proof -
  let ?enc = "[32, 32, 64, 64, 64 :: nat]"
  let ?dec = "[64, 64, 64, 32, 32 :: nat]"
  let ?fs = "[Shape 1 32 64 64, Shape 1 32 32 32, Shape 1 64 16 16, Shape 1 64 8 8,
              Shape 1 64 4 4, Shape 1 64 2 2]"
  have "\<exists>d y. YNetDecoder_init ?enc ?dec 12 0 = Inr d
           \<and> YNetDecoder_forward_trace d ?fs = Inr (y, take (length ?dec) (rev (butlast ?fs)))
           \<and> YNetDecoder_forward d ?fs = Inr y
           \<and> length (take (length ?dec) (rev (butlast ?fs))) = length ?dec
           \<and> chans y = 12
           \<and> batch y = batch (?fs ! (length ?enc - length ?dec))
           \<and> height y = height (?fs ! (length ?enc - length ?dec))
           \<and> width y = width (?fs ! (length ?enc - length ?dec))
           \<and> (length ?dec = length ?enc
                \<longrightarrow> height y = height (hd ?fs) \<and> width y = width (hd ?fs))"
    by (rule decoder_reads_all_skips) (simp_all add: All_less_Suc)
  then obtain d y where "YNetDecoder_init ?enc ?dec 12 0 = Inr d"
    "YNetDecoder_forward_trace d ?fs = Inr (y, take (length ?dec) (rev (butlast ?fs)))"
    "chans y = 12" "height y = height (?fs ! (length ?enc - length ?dec))"
    "width y = width (?fs ! (length ?enc - length ?dec))"
    by blast
  then have "YNetDecoder_init ?enc ?dec 12 0 = Inr d
      \<and> YNetDecoder_forward_trace d ?fs
         = Inr (y, [Shape 1 64 4 4, Shape 1 64 8 8, Shape 1 64 16 16, Shape 1 32 32 32,
                    Shape 1 32 64 64])
      \<and> chans y = 12 \<and> height y = 64 \<and> width y = 64"
    by simp
  then show ?thesis by blast
qed

text \<open>
  Claim C2 as stated, with the configuration the spec calls valid
  (\<open>len(decoderChannels) = len(encoderChannels) - 1\<close>): on the pyramid the encoder
  returns for a 64 x 64 input the decoder runs four stages and returns a 32 x 32 map,
  half the resolution of the finest pyramid entry, which it never reads.
\<close>

theorem decoder_shorter_list_counterexample:
  "length [64, 64, 64, 32 :: nat] = length [32, 32, 64, 64, 64 :: nat] - 1
   \<and> (case (YNetDecoder_init [32, 32, 64, 64, 64] [64, 64, 64, 32] 12 0,
            run_encoder 8 [32, 32, 64, 64, 64] (Shape 1 8 64 64)) of
         (Inr d, Inr features) \<Rightarrow>
             map height features = [64, 32, 16, 8, 4, 2]
           \<and> YNetDecoder_forward d features = Inr (Shape 1 12 32 32)
       | _ \<Rightarrow> False)"
  by code_simp

lemma dvd_level:
  assumes "2 ^ P dvd (H::nat)" "k < P"
  shows "H div 2 ^ (P - Suc k) = (H div 2 ^ P) * 2 ^ Suc k"
proof -
  obtain q where q: "H = 2 ^ P * q" using assms(1) by (auto simp: dvd_def)
  have "P = (P - Suc k) + Suc k" using assms(2) by simp
  then have "(2::nat) ^ P = 2 ^ (P - Suc k) * 2 ^ Suc k" by (metis power_add)
  then have "H = 2 ^ (P - Suc k) * (2 ^ Suc k * q)" using q by (simp add: mult.assoc)
  then have "H div 2 ^ (P - Suc k) = 2 ^ Suc k * q" by (metis nonzero_mult_div_cancel_left power_not_zero zero_neq_numeral)
  moreover have "H div 2 ^ P = q" using q by simp
  ultimately show ?thesis by (simp add: mult.commute)
qed

lemma encode_decode_run:
  assumes ne: "enc \<noteq> []"
    and len: "length dec = length enc"
    and pos: "\<forall>c \<in> set enc. 0 < c" "\<forall>c \<in> set dec. 0 < c"
    and two: "\<forall>c \<in> set (butlast dec). 2 \<le> c" and outpos: "0 < out" and cinpos: "0 < cin"
    and e: "YNetEncoder_init cin enc = Inr e"
    and d: "YNetDecoder_init enc dec out 0 = Inr d"
    and big: "2 ^ length enc \<le> H" "2 ^ length enc \<le> W"
  shows "\<exists>fs. length fs = length enc
       \<and> (\<forall>k < length enc. fs ! k = Shape n (enc ! (length enc - Suc k))
               (H div 2 ^ (length enc - Suc k)) (W div 2 ^ (length enc - Suc k)))
       \<and> encode_decode e d (Shape n cin H W)
         = (case first_mismatch 0 n (H div 2 ^ length enc) (W div 2 ^ length enc) fs of
              Some k \<Rightarrow> Inl (CatSizeMismatch k)
            | None \<Rightarrow> Inr (Shape n out (H div 2 ^ length enc * 2 ^ length enc)
                             (W div 2 ^ length enc * 2 ^ length enc)))"
proof -
  let ?P = "length enc"
  let ?body = "map (\<lambda>k. Shape n (enc ! k) (H div 2 ^ k) (W div 2 ^ k)) [0..<?P]"
  let ?cf = "Shape n (last enc) (H div 2 ^ ?P) (W div 2 ^ ?P)"
  let ?features = "?body @ [?cf]"
  let ?fs = "rev ?body"
  have fwd: "YNetEncoder_forward e (Shape n cin H W) = Inr ?features"
    by (rule encoder_forward_pyramid[OF ne pos(1) cinpos big e])
  have rv: "rev ?features = Shape n (last enc + 0) (H div 2 ^ ?P) (W div 2 ^ ?P) # ?fs"
    by simp
  have lfs: "length ?fs = ?P" by simp
  have nth: "?fs ! k = Shape n (enc ! (?P - Suc k)) (H div 2 ^ (?P - Suc k)) (W div 2 ^ (?P - Suc k))"
    if "k < ?P" for k
  proof -
    have lt: "?P - Suc k < ?P" using that by simp
    then have "[0..<?P] ! (?P - Suc k) = ?P - Suc k" by (metis add_0 nth_upt)
    then show ?thesis using that lt by (simp add: rev_nth)
  qed
  have chs: "map chans ?fs = rev (map (\<lambda>c. c + 0) enc)"
    by (simp add: rev_map[symmetric] o_def map_nth)
  have hw: "0 < H div 2 ^ ?P" "0 < W div 2 ^ ?P"
    using big by (simp_all add: div_greater_zero_iff)
  have posc: "0 < last enc + 0" using pos(1) ne by simp
  have dec: "YNetDecoder_forward_trace d ?features
       = (case first_mismatch 0 n (H div 2 ^ ?P) (W div 2 ^ ?P) ?fs of
            Some k \<Rightarrow> Inl (CatSizeMismatch k)
          | None \<Rightarrow> Inr (Shape n out (H div 2 ^ ?P * 2 ^ ?P) (W div 2 ^ ?P * 2 ^ ?P), ?fs))"
  proof -
    have tk: "take (length dec) ?fs = ?fs" "take (length enc) ?fs = ?fs" using len by simp_all
    show ?thesis
      using decoder_forward_run[OF d eq_imp_le[OF len] posc pos(2) two outpos rv lfs chs hw]
      by (simp only: tk len)
  qed
  have run: "encode_decode e d (Shape n cin H W)
         = (case first_mismatch 0 n (H div 2 ^ ?P) (W div 2 ^ ?P) ?fs of
              Some k \<Rightarrow> Inl (CatSizeMismatch k)
            | None \<Rightarrow> Inr (Shape n out (H div 2 ^ ?P * 2 ^ ?P) (W div 2 ^ ?P * 2 ^ ?P)))"
    unfolding encode_decode_def YNetDecoder_forward_def fwd
    by (simp only: sum.case dec lfs) (simp split: option.split)
  show ?thesis
    apply (rule exI[of _ ?fs])
    using lfs nth run by blast
qed

lemma full_pass_goal_decoder:
  assumes ne: "encoder_channels \<noteq> []"
    and len: "length decoder_channels = length encoder_channels"
    and pos: "\<forall>c \<in> set encoder_channels. 0 < c" "\<forall>c \<in> set decoder_channels. 0 < c"
    and two: "\<forall>c \<in> set (butlast decoder_channels). 2 \<le> c"
    and outpos: "0 < output_len" and cinpos: "0 < in_channels"
    and e: "YNetEncoder_init in_channels encoder_channels = Inr e"
    and d: "YNetDecoder_init encoder_channels decoder_channels output_len 0 = Inr d"
    and x: "chans x = in_channels" "0 < height x" "0 < width x"
  shows "(2 ^ length encoder_channels dvd height x \<and> 2 ^ length encoder_channels dvd width x
            \<longrightarrow> encode_decode e d x = Inr (Shape (batch x) output_len (height x) (width x)))
       \<and> (height x < 2 ^ length encoder_channels \<or> width x < 2 ^ length encoder_channels
            \<longrightarrow> encode_decode e d x = Inl PoolOutputTooSmall)
       \<and> (2 ^ length encoder_channels \<le> height x \<and> 2 ^ length encoder_channels \<le> width x
          \<and> \<not> (2 ^ length encoder_channels dvd height x \<and> 2 ^ length encoder_channels dvd width x)
            \<longrightarrow> (\<exists>j < length encoder_channels.
                   encode_decode e d x = Inl (CatSizeMismatch j)
                 \<and> (height x div 2 ^ (length encoder_channels - Suc j)
                       \<noteq> height x div 2 ^ length encoder_channels * 2 ^ Suc j
                    \<or> width x div 2 ^ (length encoder_channels - Suc j)
                       \<noteq> width x div 2 ^ length encoder_channels * 2 ^ Suc j)
                 \<and> (\<forall>k < j.
                       height x div 2 ^ (length encoder_channels - Suc k)
                         = height x div 2 ^ length encoder_channels * 2 ^ Suc k
                     \<and> width x div 2 ^ (length encoder_channels - Suc k)
                         = width x div 2 ^ length encoder_channels * 2 ^ Suc k)))"
proof -
  let ?P = "length encoder_channels"
  obtain n H W where xs: "x = Shape n in_channels H W" using x(1) by (cases x) auto
  have HW: "0 < H" "0 < W" using x xs by simp_all
  have small: "encode_decode e d x = Inl PoolOutputTooSmall" if "H < 2 ^ ?P \<or> W < 2 ^ ?P"
    using encoder_forward_small[OF ne pos(1) cinpos e HW that, of n] xs by (simp add: encode_decode_def)
  have large: "(2 ^ ?P dvd H \<and> 2 ^ ?P dvd W
            \<longrightarrow> encode_decode e d x = Inr (Shape n output_len H W))
       \<and> (\<not> (2 ^ ?P dvd H \<and> 2 ^ ?P dvd W)
            \<longrightarrow> (\<exists>j < ?P.
                   encode_decode e d x = Inl (CatSizeMismatch j)
                 \<and> (H div 2 ^ (?P - Suc j) \<noteq> H div 2 ^ ?P * 2 ^ Suc j
                    \<or> W div 2 ^ (?P - Suc j) \<noteq> W div 2 ^ ?P * 2 ^ Suc j)
                 \<and> (\<forall>k < j. H div 2 ^ (?P - Suc k) = H div 2 ^ ?P * 2 ^ Suc k
                     \<and> W div 2 ^ (?P - Suc k) = W div 2 ^ ?P * 2 ^ Suc k)))"
    if big: "2 ^ ?P \<le> H" "2 ^ ?P \<le> W"
  proof -
    from encode_decode_run[OF ne len pos two outpos cinpos e d big, of n]
    obtain fs where lfs: "length fs = ?P"
      and nth: "\<forall>k < ?P. fs ! k = Shape n (encoder_channels ! (?P - Suc k))
               (H div 2 ^ (?P - Suc k)) (W div 2 ^ (?P - Suc k))"
      and run: "encode_decode e d x
         = (case first_mismatch 0 n (H div 2 ^ ?P) (W div 2 ^ ?P) fs of
              Some k \<Rightarrow> Inl (CatSizeMismatch k)
            | None \<Rightarrow> Inr (Shape n output_len (H div 2 ^ ?P * 2 ^ ?P) (W div 2 ^ ?P * 2 ^ ?P)))"
      using xs by blast
    show ?thesis
    proof (cases "first_mismatch 0 n (H div 2 ^ ?P) (W div 2 ^ ?P) fs")
      case None
      then have all: "\<forall>k < ?P. H div 2 ^ (?P - Suc k) = H div 2 ^ ?P * 2 ^ Suc k
                     \<and> W div 2 ^ (?P - Suc k) = W div 2 ^ ?P * 2 ^ Suc k"
        using nth lfs by (simp add: first_mismatch_None_iff)
      obtain P' where P': "?P = Suc P'" using ne by (cases encoder_channels) auto
      have z: "?P - Suc P' = 0" "Suc P' = ?P" "P' < ?P" using P' by simp_all
      from all z(3) have "H div 2 ^ (?P - Suc P') = H div 2 ^ ?P * 2 ^ Suc P'"
        "W div 2 ^ (?P - Suc P') = W div 2 ^ ?P * 2 ^ Suc P'"
        by blast+
      then have e1: "H div 2 ^ 0 = H div 2 ^ ?P * 2 ^ ?P" "W div 2 ^ 0 = W div 2 ^ ?P * 2 ^ ?P"
        unfolding z(2) diff_self_eq_0 .
      have eq: "H div 2 ^ ?P * 2 ^ ?P = H" "W div 2 ^ ?P * 2 ^ ?P = W"
        using e1[symmetric] by (simp_all only: power_0 div_by_1)
      have "2 ^ ?P dvd H div 2 ^ ?P * 2 ^ ?P" "2 ^ ?P dvd W div 2 ^ ?P * 2 ^ ?P"
        by (rule dvd_triv_right)+
      then have dv: "2 ^ ?P dvd H" "2 ^ ?P dvd W"
        by (simp_all only: eq)
      have "encode_decode e d x = Inr (Shape n output_len H W)"
        using run None by (simp add: eq)
      then show ?thesis using dv by simp
    next
      case (Some m)
      from first_mismatch_Some[OF Some] obtain j where j: "j < length fs" "m = 0 + j"
        "\<not> (batch (fs ! j) = n \<and> height (fs ! j) = H div 2 ^ ?P * 2 ^ Suc j
            \<and> width (fs ! j) = W div 2 ^ ?P * 2 ^ Suc j)"
        "\<forall>k < j. batch (fs ! k) = n \<and> height (fs ! k) = H div 2 ^ ?P * 2 ^ Suc k
                    \<and> width (fs ! k) = W div 2 ^ ?P * 2 ^ Suc k"
        by blast
      have jP: "j < ?P" using j(1) lfs by simp
      have fj: "fs ! j = Shape n (encoder_channels ! (?P - Suc j))
               (H div 2 ^ (?P - Suc j)) (W div 2 ^ (?P - Suc j))" using nth jP by blast
      have mis: "H div 2 ^ (?P - Suc j) \<noteq> H div 2 ^ ?P * 2 ^ Suc j
                    \<or> W div 2 ^ (?P - Suc j) \<noteq> W div 2 ^ ?P * 2 ^ Suc j"
        using j(3)[unfolded fj tshape.sel] by blast
      have before: "\<forall>k < j. H div 2 ^ (?P - Suc k) = H div 2 ^ ?P * 2 ^ Suc k
                     \<and> W div 2 ^ (?P - Suc k) = W div 2 ^ ?P * 2 ^ Suc k"
      proof (intro allI impI)
        fix k assume k: "k < j"
        then have "k < ?P" using jP by simp
        then have fk: "fs ! k = Shape n (encoder_channels ! (?P - Suc k))
               (H div 2 ^ (?P - Suc k)) (W div 2 ^ (?P - Suc k))" using nth by blast
        from j(4) k have m: "height (fs ! k) = H div 2 ^ ?P * 2 ^ Suc k"
          "width (fs ! k) = W div 2 ^ ?P * 2 ^ Suc k" by blast+
        show "H div 2 ^ (?P - Suc k) = H div 2 ^ ?P * 2 ^ Suc k
                     \<and> W div 2 ^ (?P - Suc k) = W div 2 ^ ?P * 2 ^ Suc k"
          using m[unfolded fk tshape.sel] by blast
      qed
      have notdvd: "\<not> (2 ^ ?P dvd H \<and> 2 ^ ?P dvd W)"
      proof
        assume "2 ^ ?P dvd H \<and> 2 ^ ?P dvd W"
        then have "H div 2 ^ (?P - Suc j) = H div 2 ^ ?P * 2 ^ Suc j"
          "W div 2 ^ (?P - Suc j) = W div 2 ^ ?P * 2 ^ Suc j"
          using jP by (simp_all only: dvd_level)
        then show False using mis by simp
      qed
      have "encode_decode e d x = Inl (CatSizeMismatch j)" using run Some j(2) by simp
      then show ?thesis using notdvd jP mis before by blast
    qed
  qed
  have dvd_big: "2 ^ ?P \<le> H" if "2 ^ ?P dvd H" using that HW(1) by (rule_tac dvd_imp_le)
  have dvd_bigW: "2 ^ ?P \<le> W" if "2 ^ ?P dvd W" using that HW(2) by (rule_tac dvd_imp_le)
  show ?thesis
    unfolding xs tshape.sel
  proof (intro conjI impI)
    assume a: "2 ^ ?P dvd H \<and> 2 ^ ?P dvd W"
    then have "2 ^ ?P \<le> H" "2 ^ ?P \<le> W" using dvd_big dvd_bigW by simp_all
    from large[OF this] a show "encode_decode e d (Shape n in_channels H W) = Inr (Shape n output_len H W)"
      unfolding xs by simp
  next
    assume "H < 2 ^ ?P \<or> W < 2 ^ ?P"
    from small[OF this] show "encode_decode e d (Shape n in_channels H W) = Inl PoolOutputTooSmall"
      unfolding xs .
  next
    assume a: "2 ^ ?P \<le> H \<and> 2 ^ ?P \<le> W \<and> \<not> (2 ^ ?P dvd H \<and> 2 ^ ?P dvd W)"
    then have big: "2 ^ ?P \<le> H" "2 ^ ?P \<le> W" and nd: "\<not> (2 ^ ?P dvd H \<and> 2 ^ ?P dvd W)"
      by simp_all
    from large[OF big] nd
    show "\<exists>j < ?P.
                   encode_decode e d (Shape n in_channels H W) = Inl (CatSizeMismatch j)
                 \<and> (H div 2 ^ (?P - Suc j) \<noteq> H div 2 ^ ?P * 2 ^ Suc j
                    \<or> W div 2 ^ (?P - Suc j) \<noteq> W div 2 ^ ?P * 2 ^ Suc j)
                 \<and> (\<forall>k < j. H div 2 ^ (?P - Suc k) = H div 2 ^ ?P * 2 ^ Suc k
                     \<and> W div 2 ^ (?P - Suc k) = W div 2 ^ ?P * 2 ^ Suc k)"
      unfolding xs by blast
  qed
qed


lemma traj_decoder_on_raw_pyramid:
  assumes ne: "enc \<noteq> []"
    and pos: "\<forall>c \<in> set enc. 0 < c" and cinpos: "0 < cin"
    and e: "YNetEncoder_init cin enc = Inr e"
    and d: "YNetDecoder_init enc dec out traj = Inr d"
    and traj: "0 < traj"
    and big: "2 ^ length enc \<le> H" "2 ^ length enc \<le> W"
  shows "encode_decode e d (Shape n cin H W) = Inl ChannelMismatch"
proof -
  let ?P = "length enc"
  let ?body = "map (\<lambda>k. Shape n (enc ! k) (H div 2 ^ k) (W div 2 ^ k)) [0..<?P]"
  let ?cf = "Shape n (last enc) (H div 2 ^ ?P) (W div 2 ^ ?P)"
  have fwd: "YNetEncoder_forward e (Shape n cin H W) = Inr (?body @ [?cf])"
    by (rule encoder_forward_pyramid[OF ne pos cinpos big e])
  have rv: "rev (?body @ [?cf]) = ?cf # rev ?body" by simp
  have cen: "sequential (center d) ?cf = Inl ChannelMismatch"
    using traj by (simp add: decoder_init_fields(3)[OF d])
  show ?thesis
    unfolding encode_decode_def YNetDecoder_forward_def fwd
    by (simp only: sum.case YNetDecoder_forward_trace_def rv list.case cen map_sum.simps id_apply)
qed

text \<open>
  Claim C6, as the code has it, for the goal decoder (built without conditioning
  channels; the trajectory decoder expects the pyramid with the conditioning channels
  its caller appends, and that caller is not in the source). The encoder has
  \<open>P = len(encoder_channels)\<close> max-pools. Let the channel lists have the same length, the
  encoder channels be positive, the decoder channels positive and, but for the last, at
  least 2, \<open>output_len\<close> and the input's channel count at least 1, and the input not
  empty. Then running the encoder and then the decoder
  \<^item> returns a map of the input's height and width with \<open>output_len\<close> channels when both
    are multiples of \<open>2 ^ P\<close>;
  \<^item> raises in a max-pool of the encoder when the height or the width is below \<open>2 ^ P\<close>;
  \<^item> otherwise raises at the concatenation of the first decoder stage \<open>j\<close> at which the
    pooled size \<open>H div 2 ^ (P - 1 - j)\<close> differs from the upsampled size
    \<open>(H div 2 ^ P) * 2 ^ (j + 1)\<close> in height or width, all earlier stages agreeing.
  Nothing is cropped or padded. A decoder built with conditioning channels
  (\<open>traj > 0\<close>) and run on the encoder's own pyramid raises at its first convolution,
  whose weight expects the conditioning channels as well.
\<close>

theorem full_pass_needs_multiples:
  assumes ne: "encoder_channels \<noteq> []"
    and len: "length decoder_channels = length encoder_channels"
    and pos: "\<forall>c \<in> set encoder_channels. 0 < c" "\<forall>c \<in> set decoder_channels. 0 < c"
    and two: "\<forall>c \<in> set (butlast decoder_channels). 2 \<le> c"
    and outpos: "0 < output_len" and cinpos: "0 < in_channels"
    and e: "YNetEncoder_init in_channels encoder_channels = Inr e"
    and d: "YNetDecoder_init encoder_channels decoder_channels output_len 0 = Inr d"
    and x: "chans x = in_channels" "0 < height x" "0 < width x"
  shows "(2 ^ length encoder_channels dvd height x \<and> 2 ^ length encoder_channels dvd width x
            \<longrightarrow> encode_decode e d x = Inr (Shape (batch x) output_len (height x) (width x)))
       \<and> (height x < 2 ^ length encoder_channels \<or> width x < 2 ^ length encoder_channels
            \<longrightarrow> encode_decode e d x = Inl PoolOutputTooSmall)
       \<and> (2 ^ length encoder_channels \<le> height x \<and> 2 ^ length encoder_channels \<le> width x
          \<and> \<not> (2 ^ length encoder_channels dvd height x \<and> 2 ^ length encoder_channels dvd width x)
            \<longrightarrow> (\<exists>j < length encoder_channels.
                   encode_decode e d x = Inl (CatSizeMismatch j)
                 \<and> (height x div 2 ^ (length encoder_channels - Suc j)
                       \<noteq> height x div 2 ^ length encoder_channels * 2 ^ Suc j
                    \<or> width x div 2 ^ (length encoder_channels - Suc j)
                       \<noteq> width x div 2 ^ length encoder_channels * 2 ^ Suc j)
                 \<and> (\<forall>k < j.
                       height x div 2 ^ (length encoder_channels - Suc k)
                         = height x div 2 ^ length encoder_channels * 2 ^ Suc k
                     \<and> width x div 2 ^ (length encoder_channels - Suc k)
                         = width x div 2 ^ length encoder_channels * 2 ^ Suc k)))
       \<and> (\<forall>traj d'.
             0 < traj
           \<and> YNetDecoder_init encoder_channels decoder_channels output_len traj = Inr d'
           \<and> 2 ^ length encoder_channels \<le> height x \<and> 2 ^ length encoder_channels \<le> width x
             \<longrightarrow> encode_decode e d' x = Inl ChannelMismatch)"
proof -
  obtain n H W where xs: "x = Shape n in_channels H W" using x(1) by (cases x) auto
  have t: "encode_decode e d' x = Inl ChannelMismatch"
    if "0 < traj"
      "YNetDecoder_init encoder_channels decoder_channels output_len traj = Inr d'"
      "2 ^ length encoder_channels \<le> height x" "2 ^ length encoder_channels \<le> width x"
    for traj d'
    using traj_decoder_on_raw_pyramid[OF ne pos(1) cinpos e that(2) that(1), of H W n] that(3,4)
    unfolding xs by simp
  show ?thesis
    using full_pass_goal_decoder[OF ne len pos two outpos cinpos e d x] t by blast
qed

theorem full_pass_needs_multiples_witness:
  "\<exists>e d. YNetEncoder_init 8 [32, 32, 64, 64, 64] = Inr e
      \<and> YNetDecoder_init [32, 32, 64, 64, 64] [64, 64, 64, 32, 32] 12 0 = Inr d
      \<and> encode_decode e d (Shape 1 8 64 64) = Inr (Shape 1 12 64 64)
      \<and> encode_decode e d (Shape 1 8 16 16) = Inl PoolOutputTooSmall
      \<and> (\<exists>j < 5. encode_decode e d (Shape 1 8 48 48) = Inl (CatSizeMismatch j))"
proof -
  let ?enc = "[32, 32, 64, 64, 64 :: nat]"
  let ?dec = "[64, 64, 64, 32, 32 :: nat]"
  obtain e where e: "YNetEncoder_init 8 ?enc = Inr e" by (simp add: encoder_init_cases)
  obtain d where d: "YNetDecoder_init ?enc ?dec 12 0 = Inr d" by (simp add: decoder_init_cases)
  have ne: "?enc \<noteq> []" and len: "length ?dec = length ?enc"
    and pos: "\<forall>c \<in> set ?enc. 0 < c" "\<forall>c \<in> set ?dec. 0 < c"
    and two: "\<forall>c \<in> set (butlast ?dec). 2 \<le> c"
    and op: "0 < (12::nat)" "0 < (8::nat)"
    by simp_all
  have a: "encode_decode e d (Shape 1 8 64 64) = Inr (Shape 1 12 64 64)"
    using full_pass_needs_multiples[OF ne len pos two op e d, of "Shape 1 8 64 64"] by simp
  have b: "encode_decode e d (Shape 1 8 16 16) = Inl PoolOutputTooSmall"
    using full_pass_needs_multiples[OF ne len pos two op e d, of "Shape 1 8 16 16"] by simp
  have "\<exists>j < length ?enc. encode_decode e d (Shape 1 8 48 48) = Inl (CatSizeMismatch j)"
    using full_pass_needs_multiples[OF ne len pos two op e d, of "Shape 1 8 48 48"] by simp blast
  moreover have "length ?enc = 5" by simp
  ultimately have c: "\<exists>j < 5. encode_decode e d (Shape 1 8 48 48) = Inl (CatSizeMismatch j)"
    by (simp only:)
  show ?thesis using e d a b c by blast
qed

text \<open>
  Claim C6 as stated. With the repository's configuration a 16 x 16 input is not a
  multiple of \<open>2 ^ 5\<close>, and the error is raised by a max-pool of the encoder, before any
  concatenation. With the decoder list one shorter than the encoder list (the
  configuration the spec calls valid) a 33 x 33 input raises nothing: the decoder stops
  at the 16 x 16 level and returns a 16 x 16 map.
\<close>

theorem full_pass_counterexample:
  "\<not> 2 ^ 5 dvd (16::nat) \<and> \<not> 2 ^ 5 dvd (33::nat)
   \<and> (case (YNetEncoder_init 8 [32, 32, 64, 64, 64],
            YNetDecoder_init [32, 32, 64, 64, 64] [64, 64, 64, 32, 32] 12 0) of
         (Inr e, Inr d) \<Rightarrow> encode_decode e d (Shape 1 8 16 16) = Inl PoolOutputTooSmall
       | _ \<Rightarrow> False)
   \<and> length [64, 64, 64, 32 :: nat] = length [32, 32, 64, 64, 64 :: nat] - 1
   \<and> (case (YNetEncoder_init 8 [32, 32, 64, 64, 64],
            YNetDecoder_init [32, 32, 64, 64, 64] [64, 64, 64, 32] 12 0) of
         (Inr e, Inr d) \<Rightarrow> encode_decode e d (Shape 1 8 33 33) = Inr (Shape 1 12 16 16)
       | _ \<Rightarrow> False)"
  by code_simp

subsection \<open>The spatial softmax\<close>







end
